theory Spec2Isabelle
  imports Main "HOL-Library.Log_Nat"
begin

section \<open>Texts\<close>

text \<open>
  The duplicate-bug checker (\<^verbatim>\<open>similarity_checker.py\<close>) works on Python strings. A text
  is modelled as a \<^typ>\<open>string\<close> whose characters are the code points 0 to 255 (ASCII and
  the Latin-1 supplement); \<open>length\<close> counts code points, as Python's \<^verbatim>\<open>len\<close> does.
\<close>

definition code_point :: "char \<Rightarrow> nat" where
  "code_point c = of_char c"

text \<open>\<^verbatim>\<open>str.lower()\<close> on one code point below 256: A-Z, and the Latin-1 capitals
  U+00C0..U+00D6 and U+00D8..U+00DE, move up by 32; every other code point is unchanged.\<close>

definition lower_char :: "char \<Rightarrow> char" where
  "lower_char c =
     (let n = code_point c in
      if (65 \<le> n \<and> n \<le> 90) \<or> (192 \<le> n \<and> n \<le> 214) \<or> (216 \<le> n \<and> n \<le> 222)
      then char_of (n + 32) else c)"

definition lower :: "string \<Rightarrow> string" where
  "lower s = map lower_char s"

text \<open>The character class \<^verbatim>\<open>[a-zA-Z0-9]\<close> of the tokenizer's pattern.\<close>

definition in_class :: "char \<Rightarrow> bool" where
  "in_class c =
     (let n = code_point c in
      (97 \<le> n \<and> n \<le> 122) \<or> (65 \<le> n \<and> n \<le> 90) \<or> (48 \<le> n \<and> n \<le> 57))"

text \<open>The word characters \<^verbatim>\<open>\w\<close> of a Python 3 \<^verbatim>\<open>str\<close> pattern, which decide where
  \<^verbatim>\<open>\b\<close> matches: the alphanumeric code points and the underscore. Below 256 the
  alphanumeric ones are the ASCII letters and digits, U+00AA, U+00B2, U+00B3, U+00B5,
  U+00B9, U+00BA, U+00BC..U+00BE, U+00C0..U+00D6, U+00D8..U+00F6 and U+00F8..U+00FF.\<close>

definition is_word :: "char \<Rightarrow> bool" where
  "is_word c =
     (let n = code_point c in
      in_class c \<or> n = 95 \<or> n = 170 \<or> n = 178 \<or> n = 179 \<or> n = 181 \<or> n = 185 \<or> n = 186 \<or>
      (188 \<le> n \<and> n \<le> 190) \<or> (192 \<le> n \<and> n \<le> 214) \<or> (216 \<le> n \<and> n \<le> 246) \<or>
      (248 \<le> n \<and> n \<le> 255))"

text \<open>\<^verbatim>\<open>\b\<close> between the character before a position and the character at it (\<open>None\<close>
  at either end of the text): exactly one of the two is a word character.\<close>

definition word_at :: "char option \<Rightarrow> bool" where
  "word_at c = (case c of None \<Rightarrow> False | Some x \<Rightarrow> is_word x)"

definition at_boundary :: "char option \<Rightarrow> char option \<Rightarrow> bool" where
  "at_boundary p n = (word_at p \<noteq> word_at n)"

definition char_at :: "string \<Rightarrow> nat \<Rightarrow> char option" where
  "char_at s i = (if i < length s then Some (s ! i) else None)"

text \<open>\<^verbatim>\<open>[a-zA-Z0-9]+\b\<close> at the head of \<open>s\<close>: the greedy run of class characters, given
  back one character at a time until \<^verbatim>\<open>\b\<close> holds after it. \<open>backtrack n s\<close> tries the
  lengths \<open>n\<close>, \<open>n - 1\<close>, ..., 1 and returns the first that ends at a boundary.\<close>

fun backtrack :: "nat \<Rightarrow> string \<Rightarrow> nat option" where
  "backtrack 0 s = None"
| "backtrack (Suc n) s =
     (if at_boundary (char_at s n) (char_at s (Suc n)) then Some (Suc n) else backtrack n s)"

definition match_here :: "string \<Rightarrow> nat option" where
  "match_here s = backtrack (length (takeWhile in_class s)) s"

lemma backtrack_bounds: "backtrack n s = Some k \<Longrightarrow> 0 < k \<and> k \<le> n"
  by (induction n) (auto split: if_splits)

lemma match_here_bounds: "match_here s = Some k \<Longrightarrow> 0 < k \<and> k \<le> length s"
proof -
  assume "match_here s = Some k"
  then have "0 < k \<and> k \<le> length (takeWhile in_class s)"
    unfolding match_here_def by (rule backtrack_bounds)
  moreover have "length (takeWhile in_class s) \<le> length s"
    by (rule length_takeWhile_le)
  ultimately show ?thesis by linarith
qed

text \<open>\<^verbatim>\<open>re.findall(r'\b[a-zA-Z0-9]+\b', s)\<close>: scan from the left; at each position where
  \<^verbatim>\<open>\b\<close> holds try the rest of the pattern; after a match go on behind it, otherwise one
  character further. \<open>prev\<close> is the character before the position.\<close>

function findall :: "char option \<Rightarrow> string \<Rightarrow> string list" where
  "findall prev [] = []"
| "findall prev (c # cs) =
     (if at_boundary prev (Some c) then
        (case match_here (c # cs) of
           Some k \<Rightarrow> take k (c # cs) # findall (char_at (c # cs) (k - 1)) (drop k (c # cs))
         | None \<Rightarrow> findall (Some c) cs)
      else findall (Some c) cs)"
  by pat_completeness auto
termination
  by (relation "measure (\<lambda>(p, s). length s)") (auto dest: match_here_bounds)

text \<open>\<^verbatim>\<open>tokenize(text)\<close>: \<^verbatim>\<open>re.findall(r'\b[a-zA-Z0-9]+\b', text.lower())\<close>.\<close>

definition tokenize :: "string \<Rightarrow> string list" where
  "tokenize text = findall None (lower text)"


text \<open>The maximal runs of characters that satisfy \<open>P\<close>, from left to right.\<close>

function runs :: "(char \<Rightarrow> bool) \<Rightarrow> string \<Rightarrow> string list" where
  "runs P [] = []"
| "runs P (c # cs) =
     (if P c then takeWhile P (c # cs) # runs P (dropWhile P cs) else runs P cs)"
  by pat_completeness auto
termination
  by (relation "measure (\<lambda>(P, s). length s)")
    (auto simp: less_Suc_eq_le length_dropWhile_le)

text \<open>The tokenizer as the specification words it: the lower-cased maximal runs of ASCII
  letters and digits.\<close>

definition spec_tokenize :: "string \<Rightarrow> string list" where
  "spec_tokenize text = runs in_class (lower text)"

section \<open>Floating-point numbers\<close>

text \<open>
  A Python \<^verbatim>\<open>float\<close> is an IEEE 754 binary64 number. A finite one is modelled by its
  exact value, a rational \<open>m * 2 ^ e\<close> with \<open>\<bar>m\<bar> < 2 ^ 53\<close>; every operation computes the
  exact result and rounds it to the nearest such number, ties to the even mantissa
  (\<open>fl\<close>). The exponent range is not modelled: the checker's intermediate values (token
  counts, their sums of squares, scores between 0 and 1 and the weights) are far from
  overflow and underflow for every text that fits in memory.
\<close>

type_synonym float = rat

datatype error = KeyError | ZeroDivisionError

definition round_half_even :: "rat \<Rightarrow> int" where
  "round_half_even x =
     (let f = \<lfloor>x\<rfloor>; d = x - of_int f in
      if d < 1 / 2 then f else if 1 / 2 < d then f + 1 else if even f then f else f + 1)"

definition pow2 :: "int \<Rightarrow> rat" where
  "pow2 e = (if 0 \<le> e then 2 ^ nat e else 1 / 2 ^ nat (- e))"

text \<open>For \<open>0 < x\<close>, \<open>expo x\<close> is the exponent \<open>e\<close> with \<open>2 ^ 52 \<le> x / 2 ^ e < 2 ^ 53\<close>.\<close>

definition expo :: "rat \<Rightarrow> int" where
  "expo x =
     (let (p, q) = quotient_of x; k = bitlen p - bitlen q in
      if pow2 k \<le> x then k - 52 else k - 53)"

definition fl :: "rat \<Rightarrow> float" where
  "fl x =
     (if x = 0 then 0
      else let e = expo \<bar>x\<bar> in sgn x * of_int (round_half_even (\<bar>x\<bar> / pow2 e)) * pow2 e)"

definition fadd :: "float \<Rightarrow> float \<Rightarrow> float" where
  "fadd x y = fl (x + y)"

definition fmul :: "float \<Rightarrow> float \<Rightarrow> float" where
  "fmul x y = fl (x * y)"

definition fdiv :: "float \<Rightarrow> float \<Rightarrow> error + float" where
  "fdiv x y = (if y = 0 then Inl ZeroDivisionError else Inr (fl (x / y)))"

text \<open>\<^verbatim>\<open>float(n)\<close> for a Python \<^verbatim>\<open>int\<close>, also applied implicitly when an \<^verbatim>\<open>int\<close> meets a
  \<^verbatim>\<open>float\<close>; \<^verbatim>\<open>n / m\<close> for two \<^verbatim>\<open>int\<close>s is the correctly rounded quotient.\<close>

definition float_of_int :: "int \<Rightarrow> float" where
  "float_of_int n = fl (of_int n)"

definition int_truediv :: "int \<Rightarrow> int \<Rightarrow> error + float" where
  "int_truediv n m = (if m = 0 then Inl ZeroDivisionError else Inr (fl (of_int n / of_int m)))"

text \<open>The integer square root, and \<^verbatim>\<open>math.sqrt\<close>: the correctly rounded square root. With
  \<open>y = x / 4 ^ e\<close> scaled into \<open>[2 ^ 104, 2 ^ 106)\<close> the mantissa is \<open>\<lfloor>sqrt y\<rfloor>\<close> or its
  successor, whichever is nearer to \<open>sqrt y\<close>.\<close>

function isqrt :: "int \<Rightarrow> int" where
  "isqrt n =
     (if n < 2 then n
      else let r = 2 * isqrt (n div 4) in if (r + 1) * (r + 1) \<le> n then r + 1 else r)"
  by pat_completeness auto
termination
  by (relation "measure (\<lambda>n. nat n)") auto

declare isqrt.simps [simp del]

definition fsqrt :: "float \<Rightarrow> float" where
  "fsqrt x =
     (if x \<le> 0 then 0
      else let e = (expo x - 52) div 2;
               y = x / pow2 (2 * e);
               m = isqrt \<lfloor>y\<rfloor>;
               h = (of_int m + 1 / 2) * (of_int m + 1 / 2) in
           of_int (if y < h then m else if h < y then m + 1 else if even m then m else m + 1)
             * pow2 e)"

text \<open>\<^verbatim>\<open>round(x, 3)\<close>: the decimal expansion of the exact value of \<open>x\<close> is rounded to
  three places, ties to even, and the decimal result is converted back to the nearest
  \<^verbatim>\<open>float\<close>.\<close>

definition round3 :: "float \<Rightarrow> float" where
  "round3 x = fl (of_int (round_half_even (x * 1000)) / 1000)"


section \<open>The similarity measures\<close>

text \<open>\<^verbatim>\<open>cosine_similarity(text1, text2)\<close>. The vocabulary is a Python set; the two count
  vectors list it in the same order, and the three sums over them are sums of \<^verbatim>\<open>int\<close>s,
  which do not depend on that order, so they are written as sums over the set.
  \<^verbatim>\<open>math.sqrt\<close> converts its \<^verbatim>\<open>int\<close> argument to a \<^verbatim>\<open>float\<close> first, and so does the
  division of the \<^verbatim>\<open>int\<close> dot product by the \<^verbatim>\<open>float\<close> product of the magnitudes.\<close>

definition count :: "string list \<Rightarrow> string \<Rightarrow> int" where
  "count tokens word = int (count_list tokens word)"

definition cosine_similarity :: "string \<Rightarrow> string \<Rightarrow> error + float" where
  "cosine_similarity text1 text2 =
     (let tokens1 = tokenize text1; tokens2 = tokenize text2 in
      if tokens1 = [] \<or> tokens2 = [] then Inr 0
      else
        let vocab = set tokens1 \<union> set tokens2;
            dot_product = (\<Sum>word\<in>vocab. count tokens1 word * count tokens2 word);
            magnitude1 = fsqrt (float_of_int (\<Sum>word\<in>vocab. count tokens1 word * count tokens1 word));
            magnitude2 = fsqrt (float_of_int (\<Sum>word\<in>vocab. count tokens2 word * count tokens2 word))
        in if magnitude1 = 0 \<or> magnitude2 = 0 then Inr 0
           else fdiv (float_of_int dot_product) (fmul magnitude1 magnitude2))"

text \<open>\<^verbatim>\<open>keyword_overlap(summary1, summary2)\<close>.\<close>

definition keyword_overlap :: "string \<Rightarrow> string \<Rightarrow> error + float" where
  "keyword_overlap summary1 summary2 =
     (let tokens1 = set (tokenize summary1); tokens2 = set (tokenize summary2) in
      if tokens1 = {} \<or> tokens2 = {} then Inr 0
      else int_truediv (int (card (tokens1 \<inter> tokens2))) (int (card (tokens1 \<union> tokens2))))"

subsection \<open>\<^verbatim>\<open>difflib.SequenceMatcher\<close>\<close>

text \<open>
  \<^verbatim>\<open>sequence_similarity\<close> calls \<^verbatim>\<open>SequenceMatcher(None, a, b).ratio()\<close> of Python's standard
  library, with no junk predicate and with the automatic junk heuristic left on. The
  library's algorithm is written out here.

  \<open>b2j\<close> maps an element to the ascending list of its positions in \<open>b\<close>. When \<open>b\<close> has
  200 elements or more, an element occurring more than \<open>len(b) // 100 + 1\<close> times is
  popular and loses its entry.
\<close>

definition popular :: "'a list \<Rightarrow> 'a \<Rightarrow> bool" where
  "popular b x = (200 \<le> length b \<and> length b div 100 + 1 < count_list b x)"

definition b2j :: "'a list \<Rightarrow> 'a \<Rightarrow> nat list" where
  "b2j b x = (if popular b x then [] else filter (\<lambda>j. b ! j = x) [0..<length b])"

text \<open>\<^verbatim>\<open>find_longest_match(alo, ahi, blo, bhi)\<close>. The inner loop runs over the positions
  \<open>j\<close> of \<open>a[i]\<close> in \<open>b\<close>: it skips those below \<open>blo\<close>, stops at the first at or above \<open>bhi\<close>,
  and otherwise records in the new row the length \<open>k\<close> of the match ending at \<open>(i, j)\<close>,
  one more than the previous row's entry at \<open>j - 1\<close> (0 when there is none). The best
  match is replaced only by a strictly longer one.\<close>

type_synonym block = "nat \<times> nat \<times> nat"

definition j2lenget :: "(nat \<rightharpoonup> nat) \<Rightarrow> nat \<Rightarrow> nat" where
  "j2lenget j2len j =
     (if j = 0 then 0 else case j2len (j - 1) of None \<Rightarrow> 0 | Some v \<Rightarrow> v)"

fun inner_loop ::
  "nat \<Rightarrow> nat \<Rightarrow> nat \<Rightarrow> (nat \<rightharpoonup> nat) \<Rightarrow> nat list \<Rightarrow> block \<times> (nat \<rightharpoonup> nat)
     \<Rightarrow> block \<times> (nat \<rightharpoonup> nat)" where
  "inner_loop i blo bhi j2len [] st = st"
| "inner_loop i blo bhi j2len (j # js) (best, newj2len) =
     (if j < blo then inner_loop i blo bhi j2len js (best, newj2len)
      else if bhi \<le> j then (best, newj2len)
      else
        let k = j2lenget j2len j + 1 in
        inner_loop i blo bhi j2len js
          (if snd (snd best) < k then (i + 1 - k, j + 1 - k, k) else best, newj2len(j \<mapsto> k)))"

fun outer_loop ::
  "'a list \<Rightarrow> 'a list \<Rightarrow> nat \<Rightarrow> nat \<Rightarrow> nat list \<Rightarrow> block \<times> (nat \<rightharpoonup> nat) \<Rightarrow> block" where
  "outer_loop a b blo bhi [] (best, j2len) = best"
| "outer_loop a b blo bhi (i # is) (best, j2len) =
     outer_loop a b blo bhi is
       (inner_loop i blo bhi j2len (b2j b (a ! i)) (best, Map.empty))"

text \<open>The two loops that extend the best match by equal elements on either side. With
  no junk predicate the set of junk elements is empty, so their test
  \<^verbatim>\<open>not isbjunk(...)\<close> always holds, and the two further loops that absorb junk never
  run.\<close>

function extend_left :: "'a list \<Rightarrow> 'a list \<Rightarrow> nat \<Rightarrow> nat \<Rightarrow> block \<Rightarrow> block" where
  "extend_left a b alo blo (besti, bestj, bestsize) =
     (if alo < besti \<and> blo < bestj \<and> a ! (besti - 1) = b ! (bestj - 1)
      then extend_left a b alo blo (besti - 1, bestj - 1, bestsize + 1)
      else (besti, bestj, bestsize))"
  by pat_completeness auto
termination
  by (relation "measure (\<lambda>(a, b, alo, blo, besti, bestj, bestsize). besti)") auto

function extend_right :: "'a list \<Rightarrow> 'a list \<Rightarrow> nat \<Rightarrow> nat \<Rightarrow> block \<Rightarrow> block" where
  "extend_right a b ahi bhi (besti, bestj, bestsize) =
     (if besti + bestsize < ahi \<and> bestj + bestsize < bhi
         \<and> a ! (besti + bestsize) = b ! (bestj + bestsize)
      then extend_right a b ahi bhi (besti, bestj, bestsize + 1)
      else (besti, bestj, bestsize))"
  by pat_completeness auto
termination
  by (relation "measure (\<lambda>(a, b, ahi, bhi, besti, bestj, bestsize). ahi - (besti + bestsize))")
    auto

declare extend_left.simps [simp del]
declare extend_right.simps [simp del]

definition find_longest_match :: "'a list \<Rightarrow> 'a list \<Rightarrow> nat \<Rightarrow> nat \<Rightarrow> nat \<Rightarrow> nat \<Rightarrow> block" where
  "find_longest_match a b alo ahi blo bhi =
     extend_right a b ahi bhi
       (extend_left a b alo blo
          (outer_loop a b blo bhi [alo..<ahi] ((alo, blo, 0), Map.empty)))"

text \<open>The match returned for a window starts inside the window and, when it is not
  empty, ends inside it: this is what makes the work list of \<^verbatim>\<open>get_matching_blocks\<close>
  shrink.\<close>

definition block_ok :: "nat \<Rightarrow> nat \<Rightarrow> block \<Rightarrow> bool" where
  "block_ok alo ahi best =
     (if snd (snd best) = 0 then fst best = alo
      else alo \<le> fst best \<and> fst best + snd (snd best) \<le> ahi)"

definition row_le :: "(nat \<rightharpoonup> nat) \<Rightarrow> nat \<Rightarrow> bool" where
  "row_le j2len n = (\<forall>j v. j2len j = Some v \<longrightarrow> v \<le> n)"

lemma j2lenget_le: "row_le j2len n \<Longrightarrow> j2lenget j2len j \<le> n"
  by (auto simp: row_le_def j2lenget_def split: option.splits)

lemma inner_loop_ok:
  assumes "row_le j2len (i - alo)" "alo \<le> i" "i < ahi"
    and "block_ok alo ahi best" "row_le new (i + 1 - alo)"
    and "inner_loop i blo bhi j2len js (best, new) = (best', new')"
  shows "block_ok alo ahi best' \<and> row_le new' (i + 1 - alo)"
  using assms
proof (induction js arbitrary: best new)
  case Nil
  then show ?case by simp
next
  case (Cons j js)
  let ?k = "j2lenget j2len j + 1"
  have k: "?k \<le> i + 1 - alo"
    using j2lenget_le [OF Cons.prems(1), of j] Cons.prems(2) by linarith
  show ?case
  proof (cases "j < blo")
    case True
    with Cons show ?thesis by simp
  next
    case False
    show ?thesis
    proof (cases "bhi \<le> j")
      case True
      with False Cons.prems show ?thesis by simp
    next
      case b: False
      let ?best = "if snd (snd best) < ?k then (i + 1 - ?k, j + 1 - ?k, ?k) else best"
      have 1: "block_ok alo ahi ?best"
        using k Cons.prems(2,3,4) by (auto simp: block_ok_def)
      have 2: "row_le (new(j \<mapsto> ?k)) (i + 1 - alo)"
        using k Cons.prems(5) by (auto simp: row_le_def)
      have "inner_loop i blo bhi j2len (j # js) (best, new)
              = inner_loop i blo bhi j2len js (?best, new(j \<mapsto> ?k))"
        using False b by (simp only: inner_loop.simps Let_def if_False)
      with Cons.prems(6)
      have 3: "inner_loop i blo bhi j2len js (?best, new(j \<mapsto> ?k)) = (best', new')"
        by simp
      show ?thesis
        by (rule Cons.IH [OF Cons.prems(1,2,3) 1 2 3])
    qed
  qed
qed

lemma outer_loop_ok:
  assumes "block_ok alo ahi best" "row_le j2len (i - alo)" "alo \<le> i"
  shows "block_ok alo ahi (outer_loop a b blo bhi [i..<ahi] (best, j2len))"
  using assms
proof (induction "ahi - i" arbitrary: i best j2len)
  case 0
  then show ?case by simp
next
  case (Suc n)
  then have lt: "i < ahi" by linarith
  obtain best' new' where
    st: "inner_loop i blo bhi j2len (b2j b (a ! i)) (best, Map.empty) = (best', new')"
    by (cases "inner_loop i blo bhi j2len (b2j b (a ! i)) (best, Map.empty)") auto
  have "row_le Map.empty (i + 1 - alo)" by (simp add: row_le_def)
  from inner_loop_ok [OF Suc.prems(2) Suc.prems(3) lt Suc.prems(1) this st]
  have ok: "block_ok alo ahi best'" and row: "row_le new' (Suc i - alo)" by simp_all
  have "block_ok alo ahi (outer_loop a b blo bhi [Suc i..<ahi] (best', new'))"
    using Suc.hyps(2) Suc.prems(3) by (intro Suc.hyps(1) ok row) linarith+
  then show ?case
    using lt st by (simp add: upt_conv_Cons)
qed

lemma extend_left_ok:
  "block_ok alo ahi blk \<Longrightarrow> block_ok alo ahi (extend_left a b alo blo blk)"
proof (induction a b alo blo blk rule: extend_left.induct)
  case (1 a b alo blo besti bestj bestsize)
  show ?case
  proof (cases "alo < besti \<and> blo < bestj \<and> a ! (besti - 1) = b ! (bestj - 1)")
    case True
    have "block_ok alo ahi (besti - 1, bestj - 1, bestsize + 1)"
      using True "1.prems" by (auto simp: block_ok_def split: if_splits)
    from "1.IH" [OF True this] True show ?thesis
      by (subst extend_left.simps) simp
  next
    case False
    then show ?thesis using "1.prems" by (subst extend_left.simps) auto
  qed
qed

lemma extend_right_ok:
  "block_ok alo ahi blk \<Longrightarrow> block_ok alo ahi (extend_right a b ahi bhi blk)"
proof (induction a b ahi bhi blk rule: extend_right.induct)
  case (1 a b ahi bhi besti bestj bestsize)
  let ?c = "besti + bestsize < ahi \<and> bestj + bestsize < bhi
         \<and> a ! (besti + bestsize) = b ! (bestj + bestsize)"
  show ?case
  proof (cases ?c)
    case True
    have "block_ok alo ahi (besti, bestj, bestsize + 1)"
      using True "1.prems" by (auto simp: block_ok_def split: if_splits)
    from "1.IH" [OF True this] True show ?thesis
      by (subst extend_right.simps) simp
  next
    case False
    then show ?thesis using "1.prems" by (subst extend_right.simps) auto
  qed
qed

lemma find_longest_match_ok: "block_ok alo ahi (find_longest_match a b alo ahi blo bhi)"
  unfolding find_longest_match_def
  by (intro extend_right_ok extend_left_ok outer_loop_ok) (simp_all add: block_ok_def row_le_def)

lemma find_longest_match_bounds:
  assumes "(i, j, k) = find_longest_match a b alo ahi blo bhi"
  shows "alo \<le> i \<and> (0 < k \<longrightarrow> i + k \<le> ahi)"
  using find_longest_match_ok [of alo ahi a b blo bhi] assms [symmetric]
  by (auto simp: block_ok_def split: if_splits)

text \<open>\<^verbatim>\<open>get_matching_blocks()\<close>: the work list is a stack, its top at the head of the
  list; after a non-empty match the part to its left is pushed first and the part to its
  right second. The library then sorts the blocks, merges adjacent ones and appends an
  empty block at the end; none of the three changes the sum of the sizes, which is all
  that \<^verbatim>\<open>ratio\<close> reads, so the blocks are kept as they were found.\<close>

function matching_loop ::
  "'a list \<Rightarrow> 'a list \<Rightarrow> (nat \<times> nat \<times> nat \<times> nat) list \<Rightarrow> block list \<Rightarrow> block list" where
  "matching_loop a b [] matching_blocks = matching_blocks"
| "matching_loop a b ((alo, ahi, blo, bhi) # queue) matching_blocks =
     (case find_longest_match a b alo ahi blo bhi of
        (i, j, k) \<Rightarrow>
          if k \<noteq> 0 then
            matching_loop a b
              ((if i + k < ahi \<and> j + k < bhi then [(i + k, ahi, j + k, bhi)] else []) @
               (if alo < i \<and> blo < j then [(alo, i, blo, j)] else []) @ queue)
              (matching_blocks @ [(i, j, k)])
          else matching_loop a b queue matching_blocks)"
  by pat_completeness auto
termination
  apply (relation "measure (\<lambda>(a, b, queue, blocks).
          sum_list (map (\<lambda>(alo, ahi, blo, bhi). 2 * (ahi - alo) + 1) queue))")
    apply simp
   apply (auto dest!: find_longest_match_bounds)
  done

definition get_matching_blocks :: "'a list \<Rightarrow> 'a list \<Rightarrow> block list" where
  "get_matching_blocks a b = matching_loop a b [(0, length a, 0, length b)] []"

text \<open>\<^verbatim>\<open>ratio()\<close> and \<^verbatim>\<open>_calculate_ratio(matches, length)\<close>:
  \<^verbatim>\<open>2.0 * matches / length\<close> if \<^verbatim>\<open>length\<close> is not zero, else \<^verbatim>\<open>1.0\<close>.\<close>

definition ratio :: "'a list \<Rightarrow> 'a list \<Rightarrow> error + float" where
  "ratio a b =
     (let matches = sum_list (map (\<lambda>(i, j, k). k) (get_matching_blocks a b));
          len = length a + length b
      in if len \<noteq> 0 then fdiv (fmul 2 (float_of_int (int matches))) (float_of_int (int len))
         else Inr 1)"

text \<open>\<^verbatim>\<open>sequence_similarity(text1, text2)\<close>.\<close>

definition sequence_similarity :: "string \<Rightarrow> string \<Rightarrow> error + float" where
  "sequence_similarity text1 text2 = ratio (lower text1) (lower text2)"

section \<open>Scoring a pair of bug reports\<close>

text \<open>A bug report is a Python dict read from JSON; each of the six keys the checker
  reads may be absent (\<open>None\<close>) or hold a string. \<open>get field dflt\<close> is
  \<^verbatim>\<open>d.get(key, default)\<close>; \<^verbatim>\<open>d.get(key)\<close> without a default is the field itself, with
  Python's \<^verbatim>\<open>None\<close> for an absent key.\<close>

record report =
  key :: "string option"
  url :: "string option"
  summary :: "string option"
  description :: "string option"
  component :: "string option"
  steps_to_reproduce :: "string option"

definition get :: "string option \<Rightarrow> string \<Rightarrow> string" where
  "get field dflt = (case field of None \<Rightarrow> dflt | Some v \<Rightarrow> v)"

text \<open>The weights are a dict from field names to floats, kept as an association list;
  \<^verbatim>\<open>weights[k]\<close> raises \<^verbatim>\<open>KeyError\<close> for a missing key. \<^verbatim>\<open>weights or {...}\<close> takes the
  default weights when \<^verbatim>\<open>weights\<close> is \<^verbatim>\<open>None\<close> or an empty dict.\<close>

type_synonym weights = "(string \<times> float) list"

definition default_weights :: weights where
  "default_weights =
     [(''summary'', fl (40 / 100)), (''description'', fl (40 / 100)),
      (''component'', fl (10 / 100)), (''steps'', fl (10 / 100))]"

definition weight :: "weights \<Rightarrow> string \<Rightarrow> error + float" where
  "weight w k = (case map_of w k of None \<Rightarrow> Inl KeyError | Some v \<Rightarrow> Inr v)"

text \<open>Running on after a step that may raise: an error ends the computation.\<close>

definition and_then :: "error + 'a \<Rightarrow> ('a \<Rightarrow> error + 'b) \<Rightarrow> error + 'b" where
  "and_then r f = (case r of Inl e \<Rightarrow> Inl e | Inr v \<Rightarrow> f v)"

record breakdown =
  bd_summary :: float
  bd_description :: float
  bd_component :: float
  bd_steps :: float
  bd_overall :: float

text \<open>\<^verbatim>\<open>calculate_bug_similarity(new_bug, existing_bug, weights=None)\<close> returns the pair
  of the overall score and the breakdown of rounded values.\<close>

definition calculate_bug_similarity ::
  "report \<Rightarrow> report \<Rightarrow> weights option \<Rightarrow> error + (float \<times> breakdown)" where
  "calculate_bug_similarity new_bug existing_bug weights =
     (let w = (case weights of None \<Rightarrow> default_weights
               | Some ws \<Rightarrow> if ws = [] then default_weights else ws) in
      and_then (cosine_similarity (get (summary new_bug) '''') (get (summary existing_bug) ''''))
        (\<lambda>summary_cos.
      and_then (keyword_overlap (get (summary new_bug) '''') (get (summary existing_bug) ''''))
        (\<lambda>summary_key.
      and_then (fdiv (fadd summary_cos summary_key) 2)
        (\<lambda>summary_sim.
      and_then (cosine_similarity (get (description new_bug) '''')
                  (get (description existing_bug) ''''))
        (\<lambda>desc_sim.
      let comp_sim = (if component new_bug = component existing_bug then 1 else 0) in
      and_then (sequence_similarity (get (steps_to_reproduce new_bug) '''')
                  (get (steps_to_reproduce existing_bug) ''''))
        (\<lambda>steps_sim.
      and_then (weight w ''summary'') (\<lambda>w_summary.
      and_then (weight w ''description'') (\<lambda>w_description.
      and_then (weight w ''component'') (\<lambda>w_component.
      and_then (weight w ''steps'') (\<lambda>w_steps.
      let overall =
            fadd (fadd (fadd (fmul summary_sim w_summary) (fmul desc_sim w_description))
                       (fmul comp_sim w_component))
                 (fmul steps_sim w_steps)
      in Inr (overall,
              \<lparr>bd_summary = round3 summary_sim, bd_description = round3 desc_sim,
               bd_component = round3 comp_sim, bd_steps = round3 steps_sim,
               bd_overall = round3 overall\<rparr>)))))))))))"

section \<open>Finding duplicates\<close>

record match =
  m_key :: string
  m_summary :: string
  similarity :: float
  m_breakdown :: breakdown
  m_url :: string

definition make_match :: "report \<Rightarrow> float \<Rightarrow> breakdown \<Rightarrow> match" where
  "make_match candidate score bd =
     \<lparr>m_key = get (key candidate) ''UNKNOWN'', m_summary = get (summary candidate) '''',
      similarity = score, m_breakdown = bd, m_url = get (url candidate) ''''\<rparr>"

text \<open>The loop of \<^verbatim>\<open>find_duplicates\<close> over the candidates: each is scored with
  \<^verbatim>\<open>calculate_bug_similarity(new_bug, candidate)\<close>, with no weights argument, and appended
  to \<open>matches\<close> when its score reaches the threshold.\<close>

fun scan :: "report \<Rightarrow> float \<Rightarrow> report list \<Rightarrow> match list \<Rightarrow> error + match list" where
  "scan new_bug threshold [] matches = Inr matches"
| "scan new_bug threshold (candidate # candidates) matches =
     (case calculate_bug_similarity new_bug candidate None of
        Inl e \<Rightarrow> Inl e
      | Inr (score, bd) \<Rightarrow>
          scan new_bug threshold candidates
            (if threshold \<le> score then matches @ [make_match candidate score bd] else matches))"

text \<open>\<^verbatim>\<open>list.sort(key=..., reverse=True)\<close>: the list is reversed, sorted stably in
  ascending order of the key, and reversed again.\<close>

definition sort_reverse :: "('a \<Rightarrow> float) \<Rightarrow> 'a list \<Rightarrow> 'a list" where
  "sort_reverse f xs = rev (sort_key f (rev xs))"

definition default_threshold :: float where
  "default_threshold = fl (70 / 100)"

definition find_duplicates :: "report \<Rightarrow> report list \<Rightarrow> float \<Rightarrow> error + match list" where
  "find_duplicates new_bug candidates threshold =
     (case scan new_bug threshold candidates [] of
        Inl e \<Rightarrow> Inl e
      | Inr matches \<Rightarrow> Inr (sort_reverse similarity matches))"


definition high_matches :: "match list \<Rightarrow> float \<Rightarrow> match list" where
  "high_matches matches threshold_high = filter (\<lambda>m. threshold_high \<le> similarity m) matches"

section \<open>Properties of the floating-point model\<close>

lemma pow2_powi: "pow2 e = 2 powi e"
  by (simp add: pow2_def power_int_def inverse_eq_divide power_one_over)

lemma pow2_pos [simp]: "0 < pow2 e"
  by (simp add: pow2_powi)

lemma pow2_nonzero [simp]: "pow2 e \<noteq> 0"
  using pow2_pos [of e] by linarith

lemma pow2_nonneg [simp]: "0 \<le> pow2 e"
  using pow2_pos [of e] by linarith

lemma pow2_add: "pow2 (a + b) = pow2 a * pow2 b"
  by (simp add: pow2_powi power_int_add)

lemma pow2_mono: "a \<le> b \<Longrightarrow> pow2 a \<le> pow2 b"
  by (simp add: pow2_powi power_int_increasing)

lemma pow2_strict_mono: "a < b \<Longrightarrow> pow2 a < pow2 b"
  by (simp add: pow2_powi power_int_strict_increasing)

lemma pow2_nat: "pow2 (int n) = 2 ^ n"
  by (simp add: pow2_powi)

lemma expo_bounds:
  assumes "0 < x"
  shows "pow2 (expo x + 52) \<le> x \<and> x < pow2 (expo x + 53)"
proof -
  obtain p q where pq: "quotient_of x = (p, q)" by (cases "quotient_of x") auto
  then have q: "0 < q" and x: "x = of_int p / of_int q"
    by (auto dest: quotient_of_denom_pos quotient_of_div)
  from assms x q have p: "0 < p" by (simp add: zero_less_divide_iff)
  define k where "k = bitlen p - bitlen q"
  from bitlen_bounds [OF p]
  have p1: "2 ^ nat (bitlen p - 1) \<le> p" and p2: "p < 2 ^ nat (bitlen p)"
    by simp_all
  from bitlen_bounds [OF q]
  have q1: "2 ^ nat (bitlen q - 1) \<le> q" and q2: "q < 2 ^ nat (bitlen q)"
    by simp_all
  have bp: "0 < bitlen p"
    using p p2 by (cases "0 < bitlen p") auto
  have bq: "0 < bitlen q"
    using q q2 by (cases "0 < bitlen q") auto
  have P1: "pow2 (bitlen p - 1) \<le> of_int p"
  proof -
    have "(of_int (2 ^ nat (bitlen p - 1)) :: rat) \<le> of_int p" using p1 by (simp only: of_int_le_iff)
    moreover have "pow2 (bitlen p - 1) = 2 ^ nat (bitlen p - 1)" using bp by (simp add: pow2_def)
    ultimately show ?thesis by simp
  qed
  have P2: "of_int p < pow2 (bitlen p)"
  proof -
    have "(of_int p :: rat) < of_int (2 ^ nat (bitlen p))" using p2 by (simp only: of_int_less_iff)
    moreover have "pow2 (bitlen p) = 2 ^ nat (bitlen p)" using bp by (simp add: pow2_def)
    ultimately show ?thesis by simp
  qed
  have Q1: "pow2 (bitlen q - 1) \<le> of_int q"
  proof -
    have "(of_int (2 ^ nat (bitlen q - 1)) :: rat) \<le> of_int q" using q1 by (simp only: of_int_le_iff)
    moreover have "pow2 (bitlen q - 1) = 2 ^ nat (bitlen q - 1)" using bq by (simp add: pow2_def)
    ultimately show ?thesis by simp
  qed
  have Q2: "of_int q < pow2 (bitlen q)"
  proof -
    have "(of_int q :: rat) < of_int (2 ^ nat (bitlen q))" using q2 by (simp only: of_int_less_iff)
    moreover have "pow2 (bitlen q) = 2 ^ nat (bitlen q)" using bq by (simp add: pow2_def)
    ultimately show ?thesis by simp
  qed
  have qr: "(0::rat) < of_int q" using q by simp
  have lo: "pow2 (k - 1) < x"
  proof -
    have "pow2 (k - 1) * pow2 (bitlen q) = pow2 (bitlen p - 1)"
      by (simp add: k_def pow2_add [symmetric])
    then have "pow2 (k - 1) * pow2 (bitlen q) \<le> of_int p" using P1 by simp
    moreover have "pow2 (k - 1) * of_int q < pow2 (k - 1) * pow2 (bitlen q)"
      using Q2 by simp
    ultimately have "pow2 (k - 1) * of_int q < of_int p" by linarith
    then show ?thesis using qr by (simp add: x pos_less_divide_eq)
  qed
  have hi: "x < pow2 (k + 1)"
  proof -
    have "pow2 (k + 1) * pow2 (bitlen q - 1) = pow2 (bitlen p)"
      by (simp add: k_def pow2_add [symmetric])
    then have "of_int p < pow2 (k + 1) * pow2 (bitlen q - 1)" using P2 by simp
    moreover have "pow2 (k + 1) * pow2 (bitlen q - 1) \<le> pow2 (k + 1) * of_int q"
      using Q1 by simp
    ultimately have "of_int p < pow2 (k + 1) * of_int q" by linarith
    then show ?thesis using qr by (simp add: x pos_divide_less_eq)
  qed
  show ?thesis
  proof (cases "pow2 k \<le> x")
    case True
    then have "expo x = k - 52" by (simp add: expo_def pq k_def)
    with True hi show ?thesis by (simp add: add.commute)
  next
    case False
    then have "expo x = k - 53" by (simp add: expo_def pq k_def)
    moreover have "k - 53 + 52 = k - 1" by simp
    ultimately show ?thesis using False lo by simp
  qed
qed

lemma expo_unique:
  assumes "0 < x" "pow2 (e + 52) \<le> x" "x < pow2 (e + 53)"
  shows "expo x = e"
proof (rule ccontr)
  assume ne: "expo x \<noteq> e"
  from expo_bounds [OF assms(1)]
  have b: "pow2 (expo x + 52) \<le> x" "x < pow2 (expo x + 53)" by simp_all
  show False
  proof (cases "expo x < e")
    case True
    then have "pow2 (expo x + 53) \<le> pow2 (e + 52)" by (intro pow2_mono) simp
    with b(2) assms(2) show False by linarith
  next
    case False
    with ne have "e < expo x" by simp
    then have "pow2 (e + 53) \<le> pow2 (expo x + 52)" by (intro pow2_mono) simp
    with b(1) assms(3) show False by linarith
  qed
qed

lemma round_half_even_error: "\<bar>of_int (round_half_even x) - x\<bar> \<le> 1 / 2"
proof -
  have "of_int \<lfloor>x\<rfloor> \<le> x" "x < of_int \<lfloor>x\<rfloor> + 1" by linarith+
  then show ?thesis
    by (auto simp: round_half_even_def Let_def)
qed

lemma round_half_even_of_int [simp]: "round_half_even (of_int n) = n"
  by (simp add: round_half_even_def)

lemma round_half_even_mono:
  assumes "x \<le> y"
  shows "round_half_even x \<le> round_half_even y"
proof (cases "\<lfloor>x\<rfloor> = \<lfloor>y\<rfloor>")
  case True
  then show ?thesis using assms by (auto simp: round_half_even_def Let_def)
next
  case False
  with assms have "\<lfloor>x\<rfloor> + 1 \<le> \<lfloor>y\<rfloor>" using floor_mono [OF assms] by linarith
  moreover have "round_half_even x \<le> \<lfloor>x\<rfloor> + 1" by (auto simp: round_half_even_def Let_def)
  moreover have "\<lfloor>y\<rfloor> \<le> round_half_even y" by (auto simp: round_half_even_def Let_def)
  ultimately show ?thesis by linarith
qed

text \<open>The mantissa of a positive number, before and after rounding.\<close>

lemma mantissa_bounds:
  assumes "0 < x"
  shows "2 ^ 52 \<le> x / pow2 (expo x)" and "x / pow2 (expo x) < 2 ^ 53"
proof -
  from expo_bounds [OF assms]
  have "pow2 (expo x) * pow2 52 \<le> x" "x < pow2 (expo x) * pow2 53"
    by (simp_all add: pow2_add)
  moreover have "pow2 52 = 2 ^ 52" "pow2 53 = 2 ^ 53" by (simp_all add: pow2_def)
  ultimately show "2 ^ 52 \<le> x / pow2 (expo x)" "x / pow2 (expo x) < 2 ^ 53"
    by (simp_all add: pos_le_divide_eq pos_divide_less_eq mult.commute)
qed

lemma fl_pos_eq: "0 < x \<Longrightarrow> fl x = of_int (round_half_even (x / pow2 (expo x))) * pow2 (expo x)"
  by (simp add: fl_def Let_def)

lemma fl_minus: "fl (- x) = - fl x"
  by (simp add: fl_def Let_def sgn_minus)

lemma rounded_mantissa_bounds:
  assumes "0 < x"
  shows "2 ^ 52 \<le> round_half_even (x / pow2 (expo x))"
    and "round_half_even (x / pow2 (expo x)) \<le> 2 ^ 53"
proof -
  have "round_half_even (of_int (2 ^ 52)) \<le> round_half_even (x / pow2 (expo x))"
    using mantissa_bounds(1) [OF assms] by (intro round_half_even_mono) simp
  then show "2 ^ 52 \<le> round_half_even (x / pow2 (expo x))"
    by (simp only: round_half_even_of_int)
  have "round_half_even (x / pow2 (expo x)) \<le> round_half_even (of_int (2 ^ 53))"
    using mantissa_bounds(2) [OF assms] by (intro round_half_even_mono) simp
  then show "round_half_even (x / pow2 (expo x)) \<le> 2 ^ 53"
    by (simp only: round_half_even_of_int)
qed

lemma fl_pos: "0 < x \<Longrightarrow> 0 < fl x"
proof -
  assume x: "0 < x"
  have "(0::int) < 2 ^ 52" by simp
  with rounded_mantissa_bounds(1) [OF x] have "0 < round_half_even (x / pow2 (expo x))"
    by linarith
  then show ?thesis by (simp add: fl_pos_eq [OF x])
qed

lemma fl_zero [simp]: "fl 0 = 0"
  by (simp add: fl_def)

lemma fl_eq_0_iff [simp]: "fl x = 0 \<longleftrightarrow> x = 0"
proof (cases "0 < x")
  case True
  with fl_pos [OF True] show ?thesis by simp
next
  case False
  show ?thesis
  proof (cases "x = 0")
    case True
    then show ?thesis by simp
  next
    case ne: False
    with False have "0 < - x" by simp
    from fl_pos [OF this] have "fl x < 0" by (simp add: fl_minus)
    with ne show ?thesis by simp
  qed
qed

text \<open>Rounding moves a number by at most \<open>2 ^ - 53\<close> of its size.\<close>

lemma fl_error_pos:
  assumes "0 < x"
  shows "\<bar>fl x - x\<bar> \<le> x / 2 ^ 53"
proof -
  let ?e = "pow2 (expo x)"
  let ?m = "x / ?e"
  have e: "0 < ?e" by simp
  have "fl x - x = (of_int (round_half_even ?m) - ?m) * ?e"
    by (simp add: fl_pos_eq [OF assms] algebra_simps)
  moreover have "\<bar>?e\<bar> = ?e" by (rule abs_of_pos) (rule pow2_pos)
  ultimately have "\<bar>fl x - x\<bar> = \<bar>of_int (round_half_even ?m) - ?m\<bar> * ?e"
    by (simp only: abs_mult)
  also have "\<dots> \<le> (1 / 2) * ?e"
    using round_half_even_error [of ?m] e by (intro mult_right_mono) simp_all
  also have "\<dots> \<le> x / 2 ^ 53"
  proof -
    from mantissa_bounds(1) [OF assms] have "2 ^ 52 * ?e \<le> x"
      by (simp add: pos_le_divide_eq)
    then show ?thesis by simp
  qed
  finally show ?thesis .
qed

lemma fl_error: "\<bar>fl x - x\<bar> \<le> \<bar>x\<bar> / 2 ^ 53"
proof (cases "0 < x")
  case True
  with fl_error_pos [OF True] show ?thesis by simp
next
  case False
  show ?thesis
  proof (cases "x = 0")
    case True
    then show ?thesis by simp
  next
    case ne: False
    with False have p: "0 < - x" by simp
    from fl_error_pos [OF p] have "\<bar>- fl x + x\<bar> \<le> - x / 2 ^ 53" by (simp add: fl_minus)
    moreover have "\<bar>- fl x + x\<bar> = \<bar>fl x - x\<bar>" by linarith
    ultimately show ?thesis using p by simp
  qed
qed

lemma pow2_numeral [simp]: "pow2 (numeral n) = 2 ^ numeral n"
  by (simp add: pow2_def)

lemma pow2_one [simp]: "pow2 1 = 2"
  by (simp add: pow2_def)

lemma pow2_Suc: "pow2 (e + 1) = 2 * pow2 e"
  by (simp add: pow2_add)

lemma fl_double_pos:
  assumes "0 < x"
  shows "fl (2 * x) = 2 * fl x"
proof -
  from expo_bounds [OF assms]
  have b: "pow2 (expo x + 52) \<le> x" "x < pow2 (expo x + 53)" by simp_all
  have "expo (2 * x) = expo x + 1"
  proof (rule expo_unique)
    show "0 < 2 * x" using assms by simp
    have "pow2 (expo x + 1 + 52) = 2 * pow2 (expo x + 52)"
      using pow2_Suc [of "expo x + 52"] by (simp add: add.commute add.left_commute)
    then show "pow2 (expo x + 1 + 52) \<le> 2 * x" using b(1) by simp
    have "pow2 (expo x + 1 + 53) = 2 * pow2 (expo x + 53)"
      using pow2_Suc [of "expo x + 53"] by (simp add: add.commute add.left_commute)
    then show "2 * x < pow2 (expo x + 1 + 53)" using b(2) by simp
  qed
  moreover have "2 * x / pow2 (expo x + 1) = x / pow2 (expo x)"
    by (simp add: pow2_Suc)
  ultimately show ?thesis
    using assms by (simp add: fl_pos_eq pow2_Suc)
qed

lemma fl_double: "fl (2 * x) = 2 * fl x"
proof (cases "0 < x")
  case True
  then show ?thesis by (rule fl_double_pos)
next
  case False
  show ?thesis
  proof (cases "x = 0")
    case True
    then show ?thesis by simp
  next
    case ne: False
    with False have "0 < - x" by simp
    from fl_double_pos [OF this] have "fl (- (2 * x)) = 2 * fl (- x)" by simp
    then show ?thesis by (simp add: fl_minus)
  qed
qed

lemma fl_mantissa:
  assumes "2 ^ 52 \<le> M" "M < 2 ^ 53"
  shows "fl (of_int M * pow2 e) = of_int M * pow2 e"
proof -
  let ?x = "of_int M * pow2 e :: rat"
  have M: "(2 ^ 52 :: rat) \<le> of_int M" "(of_int M :: rat) < 2 ^ 53"
  proof -
    have "(of_int (2 ^ 52) :: rat) \<le> of_int M" using assms(1) by (simp only: of_int_le_iff)
    then show "(2 ^ 52 :: rat) \<le> of_int M" by simp
    have "(of_int M :: rat) < of_int (2 ^ 53)" using assms(2) by (simp only: of_int_less_iff)
    then show "(of_int M :: rat) < 2 ^ 53" by simp
  qed
  have pos: "0 < ?x" using M(1) by (simp add: zero_less_mult_iff)
  have p52: "pow2 (e + 52) = 2 ^ 52 * pow2 e" and p53: "pow2 (e + 53) = 2 ^ 53 * pow2 e"
    by (simp_all add: pow2_add)
  have "expo ?x = e"
  proof (rule expo_unique [OF pos])
    show "pow2 (e + 52) \<le> ?x" using M(1) by (simp add: p52)
    show "?x < pow2 (e + 53)" using M(2) by (simp add: p53)
  qed
  then show ?thesis using pos by (simp add: fl_pos_eq)
qed

lemma fl_idem_pos:
  assumes "0 < x"
  shows "fl (fl x) = fl x"
proof -
  let ?M = "round_half_even (x / pow2 (expo x))"
  have eq: "fl x = of_int ?M * pow2 (expo x)" by (rule fl_pos_eq [OF assms])
  from rounded_mantissa_bounds [OF assms] have M: "2 ^ 52 \<le> ?M" "?M \<le> 2 ^ 53" by simp_all
  show ?thesis
  proof (cases "?M < 2 ^ 53")
    case True
    from fl_mantissa [OF M(1) True] show ?thesis by (simp only: eq)
  next
    case False
    with M(2) have "?M = 2 ^ 53" by simp
    then have "fl x = of_int (2 ^ 52) * pow2 (expo x + 1)"
      by (simp add: eq pow2_Suc)
    moreover have "fl (of_int (2 ^ 52) * pow2 (expo x + 1)) = of_int (2 ^ 52) * pow2 (expo x + 1)"
      by (rule fl_mantissa) simp_all
    ultimately show ?thesis by (simp only:)
  qed
qed

lemma fl_idem [simp]: "fl (fl x) = fl x"
proof (cases "0 < x")
  case True
  then show ?thesis by (rule fl_idem_pos)
next
  case False
  show ?thesis
  proof (cases "x = 0")
    case True
    then show ?thesis by simp
  next
    case ne: False
    with False have "0 < - x" by simp
    from fl_idem_pos [OF this] show ?thesis by (simp add: fl_minus)
  qed
qed

lemma fl_one [simp]: "fl 1 = 1"
  using fl_mantissa [of "2 ^ 52" "- 52"] by (simp add: pow2_def)

section \<open>Properties of the tokenizer\<close>

lemma in_class_word: "in_class c \<Longrightarrow> is_word c"
  by (simp add: is_word_def Let_def)

lemma backtrack_None:
  assumes "\<And>j. j < k \<Longrightarrow> word_at (char_at s j) \<and> word_at (char_at s (Suc j))"
  shows "backtrack k s = None"
  using assms by (induction k) (auto simp: at_boundary_def)

lemma char_at_takeWhile:
  "j < length (takeWhile P s) \<Longrightarrow> char_at s j = Some (s ! j) \<and> P (s ! j)"
proof -
  assume j: "j < length (takeWhile P s)"
  have "length (takeWhile P s) \<le> length s" by (rule length_takeWhile_le)
  with j have "j < length s" by linarith
  moreover have "takeWhile P s ! j = s ! j" using j by (rule takeWhile_nth)
  moreover have "P (takeWhile P s ! j)" using j by (metis nth_mem set_takeWhileD)
  ultimately show ?thesis by (simp add: char_at_def)
qed

lemma char_at_after_takeWhile:
  "char_at s (length (takeWhile P s)) =
     (case dropWhile P s of [] \<Rightarrow> None | x # r \<Rightarrow> Some x)"
proof -
  define t r where "t = takeWhile P s" and "r = dropWhile P s"
  have s: "s = t @ r" by (simp add: t_def r_def)
  have "char_at (t @ r) (length t) = (case r of [] \<Rightarrow> None | x # r' \<Rightarrow> Some x)"
    by (cases r) (simp_all add: char_at_def)
  then show ?thesis unfolding t_def r_def by (simp only: takeWhile_dropWhile_id)
qed

lemma match_here_eq:
  "match_here s =
     (if takeWhile in_class s \<noteq> [] \<and>
         \<not> word_at (case dropWhile in_class s of [] \<Rightarrow> None | x # r \<Rightarrow> Some x)
      then Some (length (takeWhile in_class s)) else None)"
proof (cases "length (takeWhile in_class s)")
  case 0
  then show ?thesis by (simp add: match_here_def)
next
  case (Suc k)
  have w: "word_at (char_at s j)" if "j \<le> k" for j
  proof -
    from that Suc have "j < length (takeWhile in_class s)" by simp
    from char_at_takeWhile [OF this] show ?thesis
      by (simp add: word_at_def in_class_word)
  qed
  have none: "backtrack k s = None"
    by (rule backtrack_None) (simp add: w)
  have "char_at s (Suc k) = (case dropWhile in_class s of [] \<Rightarrow> None | x # r \<Rightarrow> Some x)"
    using char_at_after_takeWhile [of s in_class] Suc by simp
  then show ?thesis
    using Suc none w [of k] by (auto simp: match_here_def at_boundary_def)
qed

lemma takeWhile_word_class:
  assumes "\<not> word_at (case dropWhile in_class s of [] \<Rightarrow> None | x # r \<Rightarrow> Some x)"
  shows "takeWhile is_word s = takeWhile in_class s"
    and "dropWhile is_word s = dropWhile in_class s"
proof -
  define t r where "t = takeWhile in_class s" and "r = dropWhile in_class s"
  have t: "\<forall>x\<in>set t. is_word x" by (auto simp: t_def dest: set_takeWhileD in_class_word)
  have s: "s = t @ r" by (simp add: t_def r_def)
  have nw: "\<not> word_at (case r of [] \<Rightarrow> None | x # r' \<Rightarrow> Some x)"
    using assms unfolding r_def .
  have r: "takeWhile is_word r = [] \<and> dropWhile is_word r = r"
    using nw by (cases r) (simp_all add: word_at_def)
  have "takeWhile is_word (t @ r) = t @ takeWhile is_word r"
    using t by (simp add: takeWhile_append2)
  with r have 1: "takeWhile is_word (t @ r) = t" by simp
  have "dropWhile is_word (t @ r) = dropWhile is_word r"
    using t by (simp add: dropWhile_append2)
  with r have 2: "dropWhile is_word (t @ r) = r" by simp
  from 1 show "takeWhile is_word s = takeWhile in_class s"
    unfolding t_def r_def by (simp only: takeWhile_dropWhile_id)
  from 2 show "dropWhile is_word s = dropWhile in_class s"
    unfolding t_def r_def by (simp only: takeWhile_dropWhile_id)
qed

lemma word_run_not_class:
  assumes "is_word c"
    and "takeWhile in_class (c # cs) = [] \<or>
         word_at (case dropWhile in_class (c # cs) of [] \<Rightarrow> None | x # r \<Rightarrow> Some x)"
  shows "\<not> list_all in_class (takeWhile is_word (c # cs))"
proof (cases "in_class c")
  case False
  with assms(1) show ?thesis by simp
next
  case True
  define t r where "t = takeWhile in_class (c # cs)" and "r = dropWhile in_class (c # cs)"
  have s: "c # cs = t @ r" by (simp add: t_def r_def)
  have "t \<noteq> []" using True by (simp add: t_def)
  with assms(2) have "word_at (case r of [] \<Rightarrow> None | x # r' \<Rightarrow> Some x)"
    by (simp only: t_def r_def) simp
  then obtain x r' where r: "r = x # r'" and x: "is_word x"
    by (cases r) (simp_all add: word_at_def)
  have "x = hd (dropWhile in_class (c # cs))" using r by (simp add: r_def)
  moreover have "dropWhile in_class (c # cs) \<noteq> []" using r by (simp add: r_def)
  ultimately have nx: "\<not> in_class x" by (simp only: hd_dropWhile not_False_eq_True)
  have t: "\<forall>y\<in>set t. is_word y" by (auto simp: t_def dest: set_takeWhileD in_class_word)
  have "takeWhile is_word (t @ x # r') = t @ takeWhile is_word (x # r')"
    using t by (simp add: takeWhile_append2)
  then have "x \<in> set (takeWhile is_word (t @ x # r'))" using x by simp
  then have "x \<in> set (takeWhile is_word (c # cs))" by (simp only: s r)
  with nx show ?thesis by (auto simp: list_all_iff)
qed

lemma findall_runs:
  "findall prev s =
     filter (list_all in_class)
       (runs is_word (if word_at prev then dropWhile is_word s else s))"
proof (induction prev s rule: findall.induct)
  case (1 prev)
  show ?case by simp
next
  case (2 prev c cs)
  let ?s = "c # cs"
  let ?t = "takeWhile in_class ?s"
  let ?next = "case dropWhile in_class ?s of [] \<Rightarrow> None | x # r \<Rightarrow> Some x"
  show ?case
  proof (cases "at_boundary prev (Some c)")
    case False
    then have same: "word_at prev = is_word c" by (simp add: at_boundary_def word_at_def)
    have "findall prev ?s = findall (Some c) cs" using False by simp
    also have "\<dots> = filter (list_all in_class)
        (runs is_word (if is_word c then dropWhile is_word cs else cs))"
      using "2.IH"(3) [OF False] by (simp add: word_at_def)
    finally show ?thesis using same by simp
  next
    case True
    then have diff: "word_at prev = (\<not> is_word c)" by (auto simp: at_boundary_def word_at_def)
    show ?thesis
    proof (cases "match_here ?s")
      case None
      have "findall prev ?s = findall (Some c) cs" using True None by simp
      also have "\<dots> = filter (list_all in_class)
          (runs is_word (if is_word c then dropWhile is_word cs else cs))"
        using "2.IH"(1) [OF True None] by (simp add: word_at_def)
      finally have f: "findall prev ?s = filter (list_all in_class)
          (runs is_word (if is_word c then dropWhile is_word cs else cs))" .
      show ?thesis
      proof (cases "is_word c")
        case False
        with f diff show ?thesis by simp
      next
        case w: True
        from None have "?t = [] \<or> word_at ?next"
          by (simp add: match_here_eq split: if_splits)
        from word_run_not_class [OF w this] f w diff show ?thesis by simp
      qed
    next
      case (Some k)
      define t r where "t = takeWhile in_class ?s" and "r = dropWhile in_class ?s"
      have s: "?s = t @ r" by (simp only: t_def r_def takeWhile_dropWhile_id)
      from Some have k: "k = length t" and t: "t \<noteq> []"
        and nx: "\<not> word_at (case r of [] \<Rightarrow> None | x # r' \<Rightarrow> Some x)"
        unfolding t_def r_def by (simp_all only: match_here_eq split: if_splits) simp_all
      have cc: "in_class c" using t by (auto simp: t_def split: if_splits)
      then have w: "is_word c" by (rule in_class_word)
      from nx takeWhile_word_class [of ?s]
      have tw: "takeWhile is_word ?s = t" and dw: "dropWhile is_word ?s = r"
        unfolding t_def r_def by blast+
      have "take k (t @ r) = t" "drop k (t @ r) = r" using k by simp_all
      then have tk: "take k ?s = t" and dk: "drop k ?s = r" by (simp_all only: s)
      have "0 < k" using k t by simp
      then have "k - 1 < length (takeWhile in_class ?s)" using k by (simp add: t_def)
      from char_at_takeWhile [OF this] have pw: "word_at (char_at ?s (k - 1))"
        by (simp add: word_at_def in_class_word)
      have dd: "dropWhile is_word r = r"
        using nx by (cases r) (simp_all add: word_at_def)
      have "findall prev ?s = take k ?s # findall (char_at ?s (k - 1)) (drop k ?s)"
        using True Some by simp
      also have "findall (char_at ?s (k - 1)) (drop k ?s) =
          filter (list_all in_class) (runs is_word r)"
        using "2.IH"(2) [OF True Some] pw by (simp only: dk dd if_True)
      finally have f: "findall prev ?s = t # filter (list_all in_class) (runs is_word r)"
        by (simp only: tk)
      have la: "list_all in_class t" by (auto simp: t_def list_all_iff dest: set_takeWhileD)
      have "runs is_word ?s = takeWhile is_word ?s # runs is_word (dropWhile is_word cs)"
        using w by simp
      moreover have "dropWhile is_word cs = dropWhile is_word ?s" using w by simp
      ultimately have "runs is_word ?s = t # runs is_word r"
        by (simp only: tw dw)
      moreover have "\<not> word_at prev" using diff w by simp
      ultimately show ?thesis using f la by (simp only: if_False filter.simps if_True)
    qed
  qed
qed

lemma lower_replicate_space: "lower (replicate n (CHR '' '')) = replicate n (CHR '' '')"
  by (simp add: lower_def lower_char_def code_point_def)

lemma runs_no_word: "\<forall>c\<in>set s. \<not> P c \<Longrightarrow> runs P s = []"
  by (induction s) auto

section \<open>Scores as values\<close>

lemma and_then_Inr [simp]: "and_then (Inr v) f = f v"
  by (simp add: and_then_def)

lemma and_then_Inl [simp]: "and_then (Inl e) f = Inl e"
  by (simp add: and_then_def)

lemma cosine_similarity_total: "\<exists>v. cosine_similarity text1 text2 = Inr v"
  by (simp add: cosine_similarity_def Let_def fdiv_def fmul_def)

lemma keyword_overlap_total: "\<exists>v. keyword_overlap summary1 summary2 = Inr v"
  by (auto simp: keyword_overlap_def Let_def int_truediv_def)

lemma ratio_total: "\<exists>v. ratio a b = Inr v"
  by (simp add: ratio_def Let_def fdiv_def float_of_int_def add_nonneg_eq_0_iff)

lemma sequence_similarity_total: "\<exists>v. sequence_similarity text1 text2 = Inr v"
  by (simp add: sequence_similarity_def ratio_total)

definition effective_weights :: "weights option \<Rightarrow> weights" where
  "effective_weights weights =
     (case weights of None \<Rightarrow> default_weights
      | Some ws \<Rightarrow> if ws = [] then default_weights else ws)"

definition has_keys :: "weights \<Rightarrow> bool" where
  "has_keys w =
     (map_of w ''summary'' \<noteq> None \<and> map_of w ''description'' \<noteq> None \<and>
      map_of w ''component'' \<noteq> None \<and> map_of w ''steps'' \<noteq> None)"

text \<open>The five similarity values of a pair of reports, and the score and breakdown that
  \<^verbatim>\<open>calculate_bug_similarity\<close> builds from them.\<close>

definition value_of :: "error + float \<Rightarrow> float" where
  "value_of r = (case r of Inl e \<Rightarrow> 0 | Inr v \<Rightarrow> v)"

definition summary_sim_of :: "report \<Rightarrow> report \<Rightarrow> float" where
  "summary_sim_of n e =
     fl (fadd (value_of (cosine_similarity (get (summary n) '''') (get (summary e) '''')))
              (value_of (keyword_overlap (get (summary n) '''') (get (summary e) ''''))) / 2)"

definition desc_sim_of :: "report \<Rightarrow> report \<Rightarrow> float" where
  "desc_sim_of n e =
     value_of (cosine_similarity (get (description n) '''') (get (description e) ''''))"

definition comp_sim_of :: "report \<Rightarrow> report \<Rightarrow> float" where
  "comp_sim_of n e = (if component n = component e then 1 else 0)"

definition steps_sim_of :: "report \<Rightarrow> report \<Rightarrow> float" where
  "steps_sim_of n e =
     value_of (sequence_similarity (get (steps_to_reproduce n) '''')
                 (get (steps_to_reproduce e) ''''))"

definition overall_of :: "report \<Rightarrow> report \<Rightarrow> weights \<Rightarrow> float" where
  "overall_of n e w =
     fadd (fadd (fadd (fmul (summary_sim_of n e) (value_of (weight w ''summary'')))
                      (fmul (desc_sim_of n e) (value_of (weight w ''description''))))
                (fmul (comp_sim_of n e) (value_of (weight w ''component''))))
          (fmul (steps_sim_of n e) (value_of (weight w ''steps'')))"

definition breakdown_of :: "report \<Rightarrow> report \<Rightarrow> weights \<Rightarrow> breakdown" where
  "breakdown_of n e w =
     \<lparr>bd_summary = round3 (summary_sim_of n e), bd_description = round3 (desc_sim_of n e),
      bd_component = round3 (comp_sim_of n e), bd_steps = round3 (steps_sim_of n e),
      bd_overall = round3 (overall_of n e w)\<rparr>"

lemma calculate_bug_similarity_eq:
  "calculate_bug_similarity n e weights =
     (if has_keys (effective_weights weights)
      then Inr (overall_of n e (effective_weights weights),
                breakdown_of n e (effective_weights weights))
      else Inl KeyError)"
proof -
  obtain sc where sc: "cosine_similarity (get (summary n) '''') (get (summary e) '''') = Inr sc"
    using cosine_similarity_total by blast
  obtain sk where sk: "keyword_overlap (get (summary n) '''') (get (summary e) '''') = Inr sk"
    using keyword_overlap_total by blast
  obtain d where d: "cosine_similarity (get (description n) '''') (get (description e) '''') = Inr d"
    using cosine_similarity_total by blast
  obtain st where st: "sequence_similarity (get (steps_to_reproduce n) '''')
             (get (steps_to_reproduce e) '''') = Inr st"
    using sequence_similarity_total by blast
  show ?thesis
    unfolding calculate_bug_similarity_def effective_weights_def [symmetric]
    by (auto simp: sc sk d st Let_def fdiv_def weight_def has_keys_def value_of_def
        overall_of_def breakdown_of_def summary_sim_of_def desc_sim_of_def comp_sim_of_def
        steps_sim_of_def split: option.splits)
qed

lemma has_keys_default: "has_keys default_weights"
  by (simp add: has_keys_def default_weights_def)

definition match_of :: "report \<Rightarrow> report \<Rightarrow> match" where
  "match_of new_bug candidate =
     make_match candidate (overall_of new_bug candidate default_weights)
       (breakdown_of new_bug candidate default_weights)"

lemma scan_eq:
  "scan new_bug threshold candidates matches =
     Inr (matches @ filter (\<lambda>m. threshold \<le> similarity m) (map (match_of new_bug) candidates))"
proof (induction candidates arbitrary: matches)
  case Nil
  then show ?case by simp
next
  case (Cons c cs)
  have "calculate_bug_similarity new_bug c None =
          Inr (overall_of new_bug c default_weights, breakdown_of new_bug c default_weights)"
    by (simp add: calculate_bug_similarity_eq effective_weights_def has_keys_default)
  then show ?case
    by (simp add: Cons.IH match_of_def make_match_def)
qed

lemma find_duplicates_eq:
  "find_duplicates new_bug candidates threshold =
     Inr (sort_reverse similarity
            (filter (\<lambda>m. threshold \<le> similarity m) (map (match_of new_bug) candidates)))"
  by (simp add: find_duplicates_def scan_eq)

lemma filter_sort_reverse: "filter P (sort_reverse f xs) = sort_reverse f (filter P xs)"
  by (simp add: sort_reverse_def rev_filter [symmetric] filter_sort)

lemma sort_reverse_stable:
  "filter (\<lambda>x. f x = k) (sort_reverse f xs) = filter (\<lambda>x. f x = k) xs"
  by (simp add: sort_reverse_def rev_filter [symmetric] sort_key_stable)

lemma sort_reverse_sorted: "sorted (rev (map f (sort_reverse f xs)))"
  by (simp add: sort_reverse_def rev_map [symmetric])

lemma set_sort_reverse [simp]: "set (sort_reverse f xs) = set xs"
  by (simp add: sort_reverse_def)

lemma length_sort_reverse [simp]: "length (sort_reverse f xs) = length xs"
  by (simp add: sort_reverse_def)

lemma round3_zero: "round3 0 = 0"
  by (simp add: round3_def round_half_even_def)

section \<open>Evaluating the model at concrete inputs\<close>

text \<open>Closed floating-point terms are evaluated by rewriting: the exponent of a number is
  found from the binade it lies in, and the similarity measures are unfolded from the
  token lists inwards.\<close>

lemma floor_numeral_div: "\<lfloor>(numeral a / numeral b :: rat)\<rfloor> = numeral a div numeral b"
  using floor_divide_of_int_eq [of "numeral a" "numeral b", where ?'a = rat] by simp

lemma expo_range:
  assumes "pow2 k \<le> x" "x < pow2 (k + 1)"
  shows "expo x = k - 52"
proof (rule expo_unique)
  show "0 < x" using pow2_pos [of k] assms(1) by linarith
  show "pow2 (k - 52 + 52) \<le> x" using assms(1) by simp
  have "k - 52 + 53 = k + 1" by simp
  then show "x < pow2 (k - 52 + 53)" using assms(2) by (simp only:)
qed

lemmas expo_evals =
  expo_range [where k = "- 10"] expo_range [where k = "- 9"] expo_range [where k = "- 8"]
  expo_range [where k = "- 7"] expo_range [where k = "- 6"] expo_range [where k = "- 5"]
  expo_range [where k = "- 4"] expo_range [where k = "- 3"] expo_range [where k = "- 2"]
  expo_range [where k = "- 1"] expo_range [where k = 0] expo_range [where k = 1]
  expo_range [where k = 2] expo_range [where k = 3]

lemma fl_unfold:
  "fl x = (if x = 0 then 0
           else sgn x * of_int (round_half_even (\<bar>x\<bar> / pow2 (expo \<bar>x\<bar>))) * pow2 (expo \<bar>x\<bar>))"
  by (simp add: fl_def Let_def)

lemma round_half_even_unfold:
  "round_half_even x =
     (if x - of_int \<lfloor>x\<rfloor> < 1 / 2 then \<lfloor>x\<rfloor>
      else if 1 / 2 < x - of_int \<lfloor>x\<rfloor> then \<lfloor>x\<rfloor> + 1
      else if even \<lfloor>x\<rfloor> then \<lfloor>x\<rfloor> else \<lfloor>x\<rfloor> + 1)"
  by (simp add: round_half_even_def Let_def)

definition sqrt_mantissa :: "rat \<Rightarrow> int \<Rightarrow> int" where
  "sqrt_mantissa y m =
     (if y < (of_int m + 1 / 2) * (of_int m + 1 / 2) then m
      else if (of_int m + 1 / 2) * (of_int m + 1 / 2) < y then m + 1
      else if even m then m else m + 1)"

definition sqrt_scaled :: "rat \<Rightarrow> int \<Rightarrow> rat" where
  "sqrt_scaled y e = of_int (sqrt_mantissa y (isqrt \<lfloor>y\<rfloor>)) * pow2 e"

definition sqrt_at :: "rat \<Rightarrow> int \<Rightarrow> rat" where
  "sqrt_at x e = sqrt_scaled (x / pow2 (2 * e)) e"

lemma fsqrt_unfold: "fsqrt x = (if x \<le> 0 then 0 else sqrt_at x ((expo x - 52) div 2))"
  by (simp add: fsqrt_def sqrt_at_def sqrt_scaled_def sqrt_mantissa_def Let_def)

lemmas float_evals =
  fadd_def fmul_def fdiv_def float_of_int_def int_truediv_def round3_def fl_unfold
  round_half_even_unfold fsqrt_unfold sqrt_at_def sqrt_scaled_def sqrt_mantissa_def isqrt.simps
  expo_evals pow2_def floor_numeral_div Let_def


lemma fl_weights:
  "fl (39 / 100) = 3512807709348987 / 9007199254740992"
  "fl (2 / 5) = 3602879701896397 / 9007199254740992"
  "fl (1 / 10) = 3602879701896397 / 36028797018963968"
  by (simp_all add: float_evals)

definition dot :: "string list \<Rightarrow> string list \<Rightarrow> string list \<Rightarrow> string list \<Rightarrow> int" where
  "dot tokens1 tokens2 u v = (\<Sum>word\<in>set tokens1 \<union> set tokens2. count u word * count v word)"

definition cosine_of_sums :: "int \<Rightarrow> float \<Rightarrow> float \<Rightarrow> error + float" where
  "cosine_of_sums dot_product magnitude1 magnitude2 =
     (if magnitude1 = 0 \<or> magnitude2 = 0 then Inr 0
      else fdiv (float_of_int dot_product) (fmul magnitude1 magnitude2))"

definition cosine_of_tokens :: "string list \<Rightarrow> string list \<Rightarrow> error + float" where
  "cosine_of_tokens tokens1 tokens2 =
     (if tokens1 = [] \<or> tokens2 = [] then Inr 0
      else cosine_of_sums (dot tokens1 tokens2 tokens1 tokens2)
             (fsqrt (float_of_int (dot tokens1 tokens2 tokens1 tokens1)))
             (fsqrt (float_of_int (dot tokens1 tokens2 tokens2 tokens2))))"

lemma cosine_similarity_unfold:
  "cosine_similarity text1 text2 = cosine_of_tokens (tokenize text1) (tokenize text2)"
  by (simp add: cosine_similarity_def cosine_of_tokens_def cosine_of_sums_def dot_def Let_def)

definition common :: "string list \<Rightarrow> string list \<Rightarrow> int" where
  "common tokens1 tokens2 = int (card (set tokens1 \<inter> set tokens2))"

definition total :: "string list \<Rightarrow> string list \<Rightarrow> int" where
  "total tokens1 tokens2 = int (card (set tokens1 \<union> set tokens2))"

definition overlap_of_tokens :: "string list \<Rightarrow> string list \<Rightarrow> error + float" where
  "overlap_of_tokens tokens1 tokens2 =
     (if tokens1 = [] \<or> tokens2 = [] then Inr 0
      else int_truediv (common tokens1 tokens2) (total tokens1 tokens2))"

lemma keyword_overlap_unfold:
  "keyword_overlap summary1 summary2 = overlap_of_tokens (tokenize summary1) (tokenize summary2)"
  by (simp add: keyword_overlap_def overlap_of_tokens_def common_def total_def Let_def)

definition ratio_of :: "nat \<Rightarrow> nat \<Rightarrow> error + float" where
  "ratio_of matches len =
     (if len \<noteq> 0 then fdiv (fmul 2 (float_of_int (int matches))) (float_of_int (int len))
      else Inr 1)"

definition matches_of :: "'a list \<Rightarrow> 'a list \<Rightarrow> nat" where
  "matches_of a b = sum_list (map (\<lambda>(i, j, k). k) (get_matching_blocks a b))"

lemma sequence_similarity_unfold:
  "sequence_similarity text1 text2 =
     ratio_of (matches_of (lower text1) (lower text2)) (length (lower text1) + length (lower text2))"
  by (simp add: sequence_similarity_def ratio_def ratio_of_def matches_of_def Let_def)

lemmas similarity_evals =
  cosine_similarity_unfold cosine_of_tokens_def cosine_of_sums_def keyword_overlap_unfold
  overlap_of_tokens_def sequence_similarity_unfold ratio_of_def

lemmas score_evals =
  overall_of_def summary_sim_of_def desc_sim_of_def comp_sim_of_def steps_sim_of_def value_of_def
  weight_def default_weights_def get_def

section \<open>Properties of the sequence matcher\<close>

subsection \<open>An empty sequence matches nothing\<close>

lemma outer_loop_no_rows: "outer_loop a b blo bhi [] st = fst st"
  by (cases st) simp

lemma outer_loop_empty_b:
  "outer_loop a [] blo bhi is (best, j2len) = best"
proof (induction "is" arbitrary: j2len)
  case Nil
  show ?case by simp
next
  case (Cons i "is")
  have "b2j [] (a ! i) = []" by (simp add: b2j_def)
  then show ?case by (simp add: Cons.IH)
qed

lemma find_longest_match_empty_b: "find_longest_match a [] 0 (length a) 0 0 = (0, 0, 0)"
  by (simp add: find_longest_match_def outer_loop_empty_b extend_left.simps extend_right.simps)

lemma find_longest_match_empty_a: "find_longest_match [] b 0 0 0 (length b) = (0, 0, 0)"
  by (simp add: find_longest_match_def extend_left.simps extend_right.simps)

lemma matches_of_empty_b: "matches_of a [] = 0"
  by (simp add: matches_of_def get_matching_blocks_def find_longest_match_empty_b)

lemma matches_of_empty_a: "matches_of [] b = 0"
  by (simp add: matches_of_def get_matching_blocks_def find_longest_match_empty_a)

subsection \<open>A sequence matches itself in one block\<close>

text \<open>\<open>cell a i j\<close>: position \<open>j\<close> is in the index list of \<open>a[i]\<close>; \<open>run a i j\<close>: the
  length of the run of such cells that ends at \<open>(i, j)\<close> on its diagonal.\<close>

definition cell :: "'a list \<Rightarrow> nat \<Rightarrow> nat \<Rightarrow> bool" where
  "cell a i j = (j < length a \<and> a ! j = a ! i \<and> \<not> popular a (a ! i))"

fun run :: "'a list \<Rightarrow> nat \<Rightarrow> nat \<Rightarrow> nat" where
  "run a 0 j = (if cell a 0 j then 1 else 0)"
| "run a (Suc i) j =
     (if cell a (Suc i) j then (case j of 0 \<Rightarrow> 1 | Suc j' \<Rightarrow> run a i j' + 1) else 0)"

lemma cell_diag: "cell a i j \<Longrightarrow> i < length a \<Longrightarrow> cell a i i"
  by (simp add: cell_def)

lemma cell_sym_diag: "cell a i j \<Longrightarrow> cell a j j"
  by (simp add: cell_def)

lemma run_no_cell [simp]: "\<not> cell a i j \<Longrightarrow> run a i j = 0"
  by (cases i) simp_all

lemma run_le_diag_left: "i < length a \<Longrightarrow> run a i j \<le> run a i i"
proof (induction i arbitrary: j)
  case 0
  then show ?case by (auto dest: cell_diag)
next
  case (Suc i)
  show ?case
  proof (cases "cell a (Suc i) j")
    case False
    then show ?thesis by simp
  next
    case True
    then have d: "cell a (Suc i) (Suc i)" using Suc.prems by (rule cell_diag)
    from Suc.prems have i: "i < length a" by simp
    show ?thesis
    proof (cases j)
      case 0
      with True d show ?thesis by simp
    next
      case (Suc j')
      with True d Suc.IH [OF i, of j'] show ?thesis by simp
    qed
  qed
qed

lemma run_le_diag_right: "run a i j \<le> run a j j"
proof (induction i arbitrary: j)
  case 0
  then show ?case by (cases j) (auto dest: cell_sym_diag)
next
  case (Suc i)
  show ?case
  proof (cases "cell a (Suc i) j")
    case False
    then show ?thesis by simp
  next
    case True
    then have d: "cell a j j" by (rule cell_sym_diag)
    show ?thesis
    proof (cases j)
      case 0
      with True d show ?thesis by simp
    next
      case (Suc j')
      with True d Suc.IH [of j'] show ?thesis by simp
    qed
  qed
qed

lemma set_b2j: "i < length a \<Longrightarrow> set (b2j a (a ! i)) = {j. cell a i j}"
  by (auto simp: b2j_def cell_def)

lemma sorted_b2j: "sorted_wrt (<) (b2j a x)"
  by (simp add: b2j_def sorted_wrt_filter)

text \<open>The row that the inner loop builds, and the best match it keeps.\<close>

definition row_of :: "'a list \<Rightarrow> nat \<Rightarrow> (nat \<rightharpoonup> nat)" where
  "row_of a i = (\<lambda>j. if cell a i j then Some (run a i j) else None)"

definition prev_ok :: "'a list \<Rightarrow> nat \<Rightarrow> (nat \<rightharpoonup> nat) \<Rightarrow> bool" where
  "prev_ok a i j2len = (j2len = (case i of 0 \<Rightarrow> Map.empty | Suc i' \<Rightarrow> row_of a i'))"

lemma j2lenget_prev:
  assumes "prev_ok a i j2len" "cell a i j"
  shows "j2lenget j2len j + 1 = run a i j"
proof (cases i)
  case 0
  with assms show ?thesis by (simp add: prev_ok_def j2lenget_def)
next
  case (Suc i')
  with assms show ?thesis
    by (cases j) (simp_all add: prev_ok_def j2lenget_def row_of_def)
qed

definition diag_best :: "block \<Rightarrow> bool" where
  "diag_best best = (fst best = fst (snd best))"

lemma inner_loop_diag:
  assumes "prev_ok a i j2len" "i < length a"
    and "sorted_wrt (<) js" "\<forall>j\<in>set js. cell a i j"
    and "diag_best best"
    and "\<forall>i'<i. \<forall>j. run a i' j \<le> snd (snd best)"
    and "\<forall>j. cell a i j \<and> j \<notin> set js \<longrightarrow> run a i j \<le> snd (snd best)"
    and "inner_loop i 0 (length a) j2len js (best, new) = (best', new')"
  shows "diag_best best' \<and> (\<forall>i'<i. \<forall>j. run a i' j \<le> snd (snd best')) \<and>
         (\<forall>j. cell a i j \<longrightarrow> run a i j \<le> snd (snd best')) \<and>
         new' = (\<lambda>j. if j \<in> set js then Some (run a i j) else new j)"
  using assms(3-)
proof (induction js arbitrary: best new)
  case Nil
  then show ?case by auto
next
  case (Cons j js)
  obtain bi bj bs where best: "best = (bi, bj, bs)" by (cases best) auto
  have cj: "cell a i j" using Cons.prems(2) by simp
  then have jn: "\<not> length a \<le> j" by (simp add: cell_def)
  have j0: "\<not> j < 0" by simp
  have k: "j2lenget j2len j + 1 = run a i j" by (rule j2lenget_prev [OF assms(1) cj])
  let ?k = "run a i j"
  let ?best = "if snd (snd best) < ?k then (i + 1 - ?k, j + 1 - ?k, ?k) else best"
  have "inner_loop i 0 (length a) j2len (j # js) (best, new) =
          inner_loop i 0 (length a) j2len js (?best, new(j \<mapsto> ?k))"
    using j0 jn by (simp only: inner_loop.simps Let_def if_False k)
  with Cons.prems(6)
  have step: "inner_loop i 0 (length a) j2len js (?best, new(j \<mapsto> ?k)) = (best', new')"
    by simp
  have off: "?k \<le> bs" if "j \<noteq> i"
  proof (cases "j < i")
    case True
    then have "run a j j \<le> bs" using Cons.prems(4) by (simp add: best)
    with run_le_diag_right [of a i j] show ?thesis by linarith
  next
    case False
    with that have ij: "i < j" by simp
    have "cell a i i" using cj assms(2) by (rule cell_diag)
    moreover have "i \<notin> set (j # js)" using ij Cons.prems(1) by auto
    ultimately have "run a i i \<le> bs" using Cons.prems(5) by (simp add: best)
    with run_le_diag_left [OF assms(2), of j] show ?thesis by linarith
  qed
  have 1: "sorted_wrt (<) js" using Cons.prems(1) by simp
  have 2: "\<forall>j\<in>set js. cell a i j" using Cons.prems(2) by simp
  have 3: "diag_best ?best"
  proof (cases "bs < ?k")
    case True
    with off have "j = i" by (cases "j = i") simp_all
    with True show ?thesis by (simp add: diag_best_def best)
  next
    case False
    with Cons.prems(3) show ?thesis by (simp add: best)
  qed
  have ge: "bs \<le> snd (snd ?best)" "?k \<le> snd (snd ?best)" by (auto simp: best)
  have 4: "\<forall>i'<i. \<forall>j. run a i' j \<le> snd (snd ?best)"
  proof (intro allI impI)
    fix i' j' assume "i' < i"
    then have "run a i' j' \<le> bs" using Cons.prems(4) by (simp add: best)
    with ge(1) show "run a i' j' \<le> snd (snd ?best)" by linarith
  qed
  have 5: "\<forall>j'. cell a i j' \<and> j' \<notin> set js \<longrightarrow> run a i j' \<le> snd (snd ?best)"
  proof (intro allI impI)
    fix j' assume h: "cell a i j' \<and> j' \<notin> set js"
    show "run a i j' \<le> snd (snd ?best)"
    proof (cases "j' = j")
      case True
      with ge(2) show ?thesis by simp
    next
      case False
      with h have "run a i j' \<le> bs" using Cons.prems(5) by (simp add: best)
      with ge(1) show ?thesis by linarith
    qed
  qed
  from Cons.IH [OF 1 2 3 4 5 step]
  have r: "diag_best best'" "\<forall>i'<i. \<forall>j. run a i' j \<le> snd (snd best')"
    "\<forall>j'. cell a i j' \<longrightarrow> run a i j' \<le> snd (snd best')"
    "new' = (\<lambda>j'. if j' \<in> set js then Some (run a i j') else (new(j \<mapsto> ?k)) j')"
    by simp_all
  have "new' = (\<lambda>j'. if j' \<in> set (j # js) then Some (run a i j') else new j')"
    unfolding r(4) by auto
  with r(1,2,3) show ?case by simp
qed

lemma inner_loop_row:
  assumes "prev_ok a i j2len" "i < length a" "diag_best best"
    and "\<forall>i'<i. \<forall>j. run a i' j \<le> snd (snd best)"
    and "inner_loop i 0 (length a) j2len (b2j a (a ! i)) (best, Map.empty) = (best', new')"
  shows "diag_best best' \<and> (\<forall>i'<Suc i. \<forall>j. run a i' j \<le> snd (snd best')) \<and>
         prev_ok a (Suc i) new'"
proof -
  have 1: "\<forall>j\<in>set (b2j a (a ! i)). cell a i j" by (simp add: set_b2j [OF assms(2)])
  have 2: "\<forall>j. cell a i j \<and> j \<notin> set (b2j a (a ! i)) \<longrightarrow> run a i j \<le> snd (snd best)"
    by (simp add: set_b2j [OF assms(2)])
  from inner_loop_diag [OF assms(1,2) sorted_b2j 1 assms(3,4) 2 assms(5)]
  have r: "diag_best best'" "\<forall>i'<i. \<forall>j. run a i' j \<le> snd (snd best')"
    "\<forall>j. cell a i j \<longrightarrow> run a i j \<le> snd (snd best')"
    "new' = (\<lambda>j. if j \<in> set (b2j a (a ! i)) then Some (run a i j) else None)"
    by simp_all
  have "run a i j \<le> snd (snd best')" for j
    using r(3) by (cases "cell a i j") simp_all
  then have "\<forall>i'<Suc i. \<forall>j. run a i' j \<le> snd (snd best')"
    using r(2) by (auto simp: less_Suc_eq)
  moreover have "prev_ok a (Suc i) new'"
    by (simp add: prev_ok_def row_of_def r(4) set_b2j [OF assms(2)])
  ultimately show ?thesis using r(1) by simp
qed

lemma outer_loop_diag:
  assumes "prev_ok a i j2len" "diag_best best" "\<forall>i'<i. \<forall>j. run a i' j \<le> snd (snd best)"
  shows "diag_best (outer_loop a a 0 (length a) [i..<length a] (best, j2len))"
  using assms
proof (induction "length a - i" arbitrary: i best j2len)
  case 0
  then show ?case by simp
next
  case (Suc n)
  then have lt: "i < length a" by linarith
  obtain best' new' where
    st: "inner_loop i 0 (length a) j2len (b2j a (a ! i)) (best, Map.empty) = (best', new')"
    by (cases "inner_loop i 0 (length a) j2len (b2j a (a ! i)) (best, Map.empty)") auto
  from inner_loop_row [OF Suc.prems(1) lt Suc.prems(2,3) st]
  have r: "diag_best best'" "\<forall>i'<Suc i. \<forall>j. run a i' j \<le> snd (snd best')"
    "prev_ok a (Suc i) new'" by simp_all
  have "n = length a - Suc i" using Suc.hyps(2) by linarith
  from Suc.hyps(1) [OF this r(3) r(1) r(2)]
  show ?case using lt st by (simp add: upt_conv_Cons)
qed

lemma extend_left_diag: "extend_left a a 0 0 (i, i, k) = (0, 0, k + i)"
proof (induction i arbitrary: k)
  case 0
  show ?case by (simp add: extend_left.simps)
next
  case (Suc i)
  have "extend_left a a 0 0 (Suc i, Suc i, k) = extend_left a a 0 0 (i, i, k + 1)"
    by (subst extend_left.simps) simp
  then show ?case by (simp add: Suc.IH)
qed

lemma extend_right_diag: "k \<le> n \<Longrightarrow> extend_right a a n n (0, 0, k) = (0, 0, n)"
proof (induction "n - k" arbitrary: k)
  case 0
  then show ?case by (simp add: extend_right.simps)
next
  case (Suc d)
  then have lt: "k < n" by linarith
  have "extend_right a a n n (0, 0, k) = extend_right a a n n (0, 0, k + 1)"
    using lt by (subst extend_right.simps) simp
  moreover have "extend_right a a n n (0, 0, k + 1) = (0, 0, n)"
    using Suc.hyps(2) lt by (intro Suc.hyps(1)) linarith+
  ultimately show ?case by simp
qed

lemma find_longest_match_self:
  "find_longest_match a a 0 (length a) 0 (length a) = (0, 0, length a)"
proof -
  let ?best = "outer_loop a a 0 (length a) [0..<length a] ((0, 0, 0), Map.empty)"
  have d: "diag_best ?best"
    by (rule outer_loop_diag) (simp_all add: prev_ok_def diag_best_def)
  have ok: "block_ok 0 (length a) ?best"
    by (rule outer_loop_ok) (simp_all add: block_ok_def row_le_def)
  obtain i j k where b: "?best = (i, j, k)" by (cases ?best) auto
  from d b have ij: "j = i" by (simp add: diag_best_def)
  from ok b have le: "k + i \<le> length a" by (auto simp: block_ok_def split: if_splits)
  show ?thesis
    unfolding find_longest_match_def b ij
    by (simp add: extend_left_diag extend_right_diag [OF le])
qed

lemma get_matching_blocks_self:
  "get_matching_blocks a a = (if a = [] then [] else [(0, 0, length a)])"
  by (simp add: get_matching_blocks_def find_longest_match_self)

lemma matches_of_self: "matches_of a a = length a"
  by (simp add: matches_of_def get_matching_blocks_self)

lemma ratio_unfold:
  "ratio a b = ratio_of (matches_of a b) (length a + length b)"
  by (simp add: ratio_def ratio_of_def matches_of_def Let_def)

lemma ratio_self:
  assumes "a \<noteq> []"
  shows "ratio a a = Inr 1"
proof -
  let ?n = "of_nat (length a) :: rat"
  have n: "?n \<noteq> 0" using assms by simp
  have "fmul 2 (float_of_int (int (length a))) = 2 * fl ?n"
    by (simp add: fmul_def float_of_int_def fl_double)
  moreover have "float_of_int (int (length a + length a)) = 2 * fl ?n"
  proof -
    have "(of_int (int (length a + length a)) :: rat) = 2 * ?n" by simp
    then show ?thesis by (simp only: float_of_int_def fl_double)
  qed
  moreover have "2 * fl ?n \<noteq> 0" using n by simp
  ultimately show ?thesis
    using assms by (simp add: ratio_unfold matches_of_self ratio_of_def fdiv_def)
qed

lemma ratio_empty: "ratio [] [] = Inr 1"
  by (simp add: ratio_unfold ratio_of_def)

lemma ratio_empty_right: "a \<noteq> [] \<Longrightarrow> ratio a [] = Inr 0"
  by (simp add: ratio_unfold ratio_of_def matches_of_empty_b fdiv_def fmul_def float_of_int_def)

lemma ratio_empty_left: "b \<noteq> [] \<Longrightarrow> ratio [] b = Inr 0"
  by (simp add: ratio_unfold ratio_of_def matches_of_empty_a fdiv_def fmul_def float_of_int_def)

section \<open>Rounding errors of the similarity measures\<close>

lemma isqrt_correct:
  "0 \<le> n \<Longrightarrow> 0 \<le> isqrt n \<and> isqrt n * isqrt n \<le> n \<and> n < (isqrt n + 1) * (isqrt n + 1)"
proof (induction n rule: isqrt.induct)
  case (1 n)
  show ?case
  proof (cases "n < 2")
    case True
    with "1.prems" have "n = 0 \<or> n = 1" by linarith
    then show ?thesis by (subst (1 2 3 4 5) isqrt.simps) auto
  next
    case False
    define s where "s = isqrt (n div 4)"
    have "0 \<le> n div 4" using "1.prems" by simp
    from "1.IH" [OF False this]
    have s: "0 \<le> s" "s * s \<le> n div 4" "n div 4 < (s + 1) * (s + 1)"
      by (simp_all add: s_def)
    have d: "4 * (n div 4) \<le> n" "n \<le> 4 * (n div 4) + 3" by linarith+
    have lo: "(2 * s) * (2 * s) \<le> n" using s(2) d(1) by (simp add: algebra_simps)
    have hi: "n < (2 * s + 2) * (2 * s + 2)" using s(3) d(2) by (simp add: algebra_simps)
    have eq: "isqrt n = (if (2 * s + 1) * (2 * s + 1) \<le> n then 2 * s + 1 else 2 * s)"
      using False by (subst isqrt.simps) (simp add: s_def Let_def)
    show ?thesis
    proof (cases "(2 * s + 1) * (2 * s + 1) \<le> n")
      case True
      with eq have "isqrt n = 2 * s + 1" by simp
      with True hi s(1) show ?thesis by (simp add: algebra_simps)
    next
      case False
      with eq have "isqrt n = 2 * s" by simp
      with False lo s(1) show ?thesis by (simp add: algebra_simps)
    qed
  qed
qed


lemma fsqrt_error:
  assumes "0 < x"
  shows "0 < fsqrt x" and "\<bar>fsqrt x * fsqrt x - x\<bar> \<le> x / 2 ^ 50"
proof -
  define E where "E = expo x"
  define e where "e = (E - 52) div 2"
  define y where "y = x / pow2 (2 * e)"
  define m0 where "m0 = isqrt \<lfloor>y\<rfloor>"
  define M where "M = sqrt_mantissa y m0"
  define m :: rat where "m = of_int m0"
  have fs: "fsqrt x = of_int M * pow2 e"
    using assms
    by (simp add: fsqrt_unfold sqrt_at_def sqrt_scaled_def M_def m0_def y_def e_def E_def)
  from expo_bounds [OF assms]
  have x: "pow2 (E + 52) \<le> x" "x < pow2 (E + 53)" by (simp_all add: E_def)
  have e2: "2 * e \<le> E - 52" "E - 52 \<le> 2 * e + 1" unfolding e_def by presburger+
  have "pow2 (2 * e) * 2 ^ 104 = pow2 (2 * e + 104)" by (simp add: pow2_add)
  also have "\<dots> \<le> pow2 (E + 52)" using e2(1) by (intro pow2_mono) linarith
  finally have "pow2 (2 * e) * 2 ^ 104 \<le> x" using x(1) by linarith
  then have ylo: "2 ^ 104 \<le> y" by (simp add: y_def pos_le_divide_eq mult.commute)
  have "pow2 (E + 53) \<le> pow2 (2 * e + 106)" using e2(2) by (intro pow2_mono) linarith
  also have "\<dots> = pow2 (2 * e) * 2 ^ 106" by (simp add: pow2_add)
  finally have "x < pow2 (2 * e) * 2 ^ 106" using x(2) by linarith
  then have yhi: "y < 2 ^ 106" by (simp add: y_def pos_divide_less_eq mult.commute)
  have "0 \<le> \<lfloor>y\<rfloor>" using ylo by simp
  from isqrt_correct [OF this]
  have i: "0 \<le> m0" "m0 * m0 \<le> \<lfloor>y\<rfloor>" "\<lfloor>y\<rfloor> < (m0 + 1) * (m0 + 1)"
    by (simp_all add: m0_def)
  have m_nonneg: "0 \<le> m" using i(1) by (simp add: m_def)
  have "(of_int (m0 * m0) :: rat) \<le> of_int \<lfloor>y\<rfloor>" using i(2) by (simp only: of_int_le_iff)
  then have lo: "m * m \<le> y" by (simp add: m_def) linarith
  have "\<lfloor>y\<rfloor> + 1 \<le> (m0 + 1) * (m0 + 1)" using i(3) by linarith
  then have "(of_int (\<lfloor>y\<rfloor> + 1) :: rat) \<le> of_int ((m0 + 1) * (m0 + 1))"
    by (simp only: of_int_le_iff)
  then have hi: "y < (m + 1) * (m + 1)" by (simp add: m_def) linarith
  have sq1: "(m + 1) * (m + 1) = m * m + 2 * m + 1" by (simp add: algebra_simps)
  have sq2: "(m + 1 / 2) * (m + 1 / 2) = m * m + m + 1 / 4" by (simp add: algebra_simps)
  have m_hi: "m < 2 ^ 53"
  proof (rule ccontr)
    assume "\<not> m < 2 ^ 53"
    then have "2 ^ 53 \<le> m" by simp
    then have "2 ^ 53 * 2 ^ 53 \<le> m * m" by (intro mult_mono) simp_all
    with lo yhi show False by simp
  qed
  have m_lo: "2 ^ 52 \<le> m"
  proof (rule ccontr)
    assume "\<not> 2 ^ 52 \<le> m"
    then have "m0 < 2 ^ 52" by (simp add: m_def)
    then have "m0 + 1 \<le> 2 ^ 52" by linarith
    then have "(of_int (m0 + 1) :: rat) \<le> of_int (2 ^ 52)" by (simp only: of_int_le_iff)
    then have "m + 1 \<le> 2 ^ 52" by (simp add: m_def)
    then have "(m + 1) * (m + 1) \<le> 2 ^ 52 * 2 ^ 52"
      using m_nonneg by (intro mult_mono) simp_all
    with hi ylo show False by simp
  qed
  have M: "(of_int M = m \<and> y \<le> m * m + m + 1 / 4) \<or>
           (of_int M = m + 1 \<and> m * m + m + 1 / 4 \<le> y)"
  proof -
    have mm: "of_int m0 = m" "of_int (m0 + 1) = m + 1" by (simp_all add: m_def)
    have "M = (if y < (m + 1 / 2) * (m + 1 / 2) then m0
               else if (m + 1 / 2) * (m + 1 / 2) < y then m0 + 1
               else if even m0 then m0 else m0 + 1)"
      by (simp add: M_def sqrt_mantissa_def m_def)
    then have "M = (if y < m * m + m + 1 / 4 then m0
               else if m * m + m + 1 / 4 < y then m0 + 1
               else if even m0 then m0 else m0 + 1)"
      by (simp only: sq2)
    then consider "M = m0" "y \<le> m * m + m + 1 / 4" | "M = m0 + 1" "m * m + m + 1 / 4 \<le> y"
      by (auto split: if_splits)
    then show ?thesis
    proof cases
      case 1
      then show ?thesis by (simp only: mm) simp
    next
      case 2
      then show ?thesis by (simp only: mm) simp
    qed
  qed
  then have Mpos: "(0::rat) < of_int M" using m_lo by auto
  have d: "\<bar>of_int M * of_int M - y\<bar> \<le> 2 ^ 54"
  proof -
    from M show ?thesis
    proof
      assume a: "of_int M = m \<and> y \<le> m * m + m + 1 / 4"
      then have "\<bar>m * m - y\<bar> \<le> m + 1 / 4" using lo by linarith
      with a m_hi show ?thesis by simp
    next
      assume a: "of_int M = m + 1 \<and> m * m + m + 1 / 4 \<le> y"
      then have "\<bar>(m + 1) * (m + 1) - y\<bar> \<le> m + 3 / 4" using hi by (simp only: sq1) linarith
      with a m_hi show ?thesis by simp
    qed
  qed
  have "(2 ^ 54 :: rat) \<le> 2 ^ 104 / 2 ^ 50" by simp
  also have "\<dots> \<le> y / 2 ^ 50" using ylo by (simp add: divide_right_mono)
  finally have d': "\<bar>of_int M * of_int M - y\<bar> \<le> y / 2 ^ 50" using d by linarith
  show "0 < fsqrt x" using Mpos by (simp add: fs)
  have "2 * e = e + e" by simp
  then have p2: "pow2 (2 * e) = pow2 e * pow2 e"
    by (simp only: pow2_add)
  have xy: "x = y * pow2 (2 * e)" by (simp add: y_def)
  have ring: "(a * b) * (a * b) - c * (b * b) = (a * a - c) * (b * b)" for a b c :: rat
    by (simp add: algebra_simps)
  have "fsqrt x * fsqrt x - y * pow2 (2 * e) = (of_int M * of_int M - y) * pow2 (2 * e)"
    by (simp only: fs p2 ring)
  then have "fsqrt x * fsqrt x - x = (of_int M * of_int M - y) * pow2 (2 * e)"
    by (simp only: xy [symmetric])
  moreover have "\<bar>pow2 (2 * e)\<bar> = pow2 (2 * e)" by (rule abs_of_pos) (rule pow2_pos)
  ultimately have "\<bar>fsqrt x * fsqrt x - x\<bar> = \<bar>of_int M * of_int M - y\<bar> * pow2 (2 * e)"
    by (simp only: abs_mult)
  also have "\<dots> \<le> (y / 2 ^ 50) * pow2 (2 * e)"
    using d' by (intro mult_right_mono) simp_all
  also have "\<dots> = x / 2 ^ 50" by (simp add: y_def)
  finally show "\<bar>fsqrt x * fsqrt x - x\<bar> \<le> x / 2 ^ 50" .
qed


lemma pws:
  "(2::rat) ^ 40 = 1099511627776"
  "(2::rat) ^ 41 = 2199023255552"
  "(2::rat) ^ 42 = 4398046511104"
  "(2::rat) ^ 43 = 8796093022208"
  "(2::rat) ^ 44 = 17592186044416"
  "(2::rat) ^ 45 = 35184372088832"
  "(2::rat) ^ 46 = 70368744177664"
  "(2::rat) ^ 47 = 140737488355328"
  "(2::rat) ^ 48 = 281474976710656"
  "(2::rat) ^ 49 = 562949953421312"
  "(2::rat) ^ 50 = 1125899906842624"
  "(2::rat) ^ 51 = 2251799813685248"
  "(2::rat) ^ 52 = 4503599627370496"
  "(2::rat) ^ 53 = 9007199254740992"
  by simp_all

lemma fl_close:
  assumes "\<bar>x - c\<bar> \<le> d" "\<bar>x\<bar> \<le> 4"
  shows "\<bar>fl x - c\<bar> \<le> d + 1 / 2 ^ 51"
proof -
  have "\<bar>fl x - x\<bar> \<le> \<bar>x\<bar> / 2 ^ 53" by (rule fl_error)
  also have "\<dots> \<le> 4 / 2 ^ 53" using assms(2) by (simp add: divide_right_mono)
  finally have "\<bar>fl x - x\<bar> \<le> 1 / 2 ^ 51" by simp
  with assms(1) show ?thesis by linarith
qed

lemma round_half_even_near:
  assumes "\<bar>x - of_int k\<bar> < 1 / 2"
  shows "round_half_even x = k"
proof -
  have "of_int k - 1 / 2 < x" "x < of_int k + 1 / 2" using assms by linarith+
  then have "\<lfloor>x\<rfloor> = k \<or> \<lfloor>x\<rfloor> = k - 1" by linarith
  then show ?thesis
  proof
    assume f: "\<lfloor>x\<rfloor> = k"
    then have "(of_int \<lfloor>x\<rfloor> :: rat) = of_int k" by simp
    then have "x - of_int \<lfloor>x\<rfloor> < 1 / 2" using assms by linarith
    then show ?thesis by (simp add: round_half_even_unfold f)
  next
    assume f: "\<lfloor>x\<rfloor> = k - 1"
    then have "(of_int \<lfloor>x\<rfloor> :: rat) = of_int k - 1" by simp
    then have "1 / 2 < x - of_int \<lfloor>x\<rfloor>" using assms by linarith
    then show ?thesis by (simp add: round_half_even_unfold f)
  qed
qed

lemma round3_near:
  assumes "\<bar>x - of_int k / 1000\<bar> < 1 / 2000"
  shows "round3 x = fl (of_int k / 1000)"
proof -
  have "\<bar>x * 1000 - of_int k\<bar> < 1 / 2" using assms by linarith
  from round_half_even_near [OF this] show ?thesis by (simp add: round3_def)
qed

text \<open>The cosine of a token vector with itself is 1 up to rounding.\<close>

lemma cosine_of_sums_self:
  assumes "0 < n"
  shows "\<exists>c. cosine_of_sums n (fsqrt (float_of_int n)) (fsqrt (float_of_int n)) = Inr c \<and>
             \<bar>c - 1\<bar> \<le> 1 / 2 ^ 47"
proof -
  define N where "N = float_of_int n"
  define m where "m = fsqrt N"
  define p where "p = fmul m m"
  have N: "0 < N" using assms by (simp add: N_def float_of_int_def fl_pos)
  from fsqrt_error [OF N] have m: "0 < m" and me: "\<bar>m * m - N\<bar> \<le> N / 2 ^ 50"
    by (simp_all add: m_def)
  have mm: "0 < m * m" using m by simp
  have p_pos: "0 < p" using mm by (simp add: p_def fmul_def fl_pos)
  have "\<bar>p - m * m\<bar> \<le> \<bar>m * m\<bar> / 2 ^ 53" unfolding p_def fmul_def by (rule fl_error)
  then have pm: "\<bar>p - m * m\<bar> \<le> m * m / 2 ^ 53" using mm by (simp only: abs_of_pos)
  have pe: "\<bar>p - N\<bar> \<le> N / 2 ^ 49"
    using me pm N unfolding pws by linarith
  have half: "N / 2 \<le> p" using pe N unfolding pws by linarith
  have "\<bar>N - p\<bar> \<le> p / 2 ^ 48" using pe half unfolding pws by linarith
  then have "\<bar>N - p\<bar> / p \<le> 1 / 2 ^ 48" using p_pos by (simp add: divide_le_eq)
  moreover have "N / p - 1 = (N - p) / p" using p_pos by (simp add: field_simps)
  moreover have "\<bar>(N - p) / p\<bar> = \<bar>N - p\<bar> / p" using p_pos by (simp add: abs_divide)
  ultimately have q: "\<bar>N / p - 1\<bar> \<le> 1 / 2 ^ 48" by (simp only:)
  then have "\<bar>N / p\<bar> \<le> 4" unfolding pws by linarith
  from fl_close [OF q this] have "\<bar>fl (N / p) - 1\<bar> \<le> 1 / 2 ^ 47"
    unfolding pws by linarith
  moreover have "cosine_of_sums n m m = Inr (fl (N / p))"
    using m p_pos by (simp add: cosine_of_sums_def fdiv_def N_def p_def)
  ultimately show ?thesis by (auto simp: m_def N_def)
qed

lemma count_pos: "w \<in> set tokens \<Longrightarrow> 0 < count tokens w"
  using count_list_0_iff [of tokens w] by (simp add: count_def)

lemma dot_self_pos:
  assumes "tokens \<noteq> []"
  shows "0 < dot tokens tokens tokens tokens"
  unfolding dot_def
proof (rule sum_pos)
  show "finite (set tokens \<union> set tokens)" by simp
  show "set tokens \<union> set tokens \<noteq> {}" using assms by simp
  show "\<And>w. w \<in> set tokens \<union> set tokens \<Longrightarrow> 0 < count tokens w * count tokens w"
    by (simp add: count_pos)
qed

lemma cosine_similarity_self:
  assumes "tokenize text \<noteq> []"
  shows "\<exists>c. cosine_similarity text text = Inr c \<and> \<bar>c - 1\<bar> \<le> 1 / 2 ^ 47"
  using cosine_of_sums_self [OF dot_self_pos [OF assms]] assms
  by (simp add: cosine_similarity_unfold cosine_of_tokens_def)

lemma cosine_similarity_no_tokens:
  "tokenize text1 = [] \<or> tokenize text2 = [] \<Longrightarrow> cosine_similarity text1 text2 = Inr 0"
  by (auto simp: cosine_similarity_unfold cosine_of_tokens_def)

lemma tokenize_empty [simp]: "tokenize [] = []"
  by (simp add: tokenize_def lower_def)



lemma round3_one: "round3 1 = 1"
  using round3_near [of 1 1000] by simp




section \<open>The claims\<close>

subsection \<open>Example reports and weights\<close>

definition report_a :: report where
  "report_a = \<lparr>key = None, url = None, summary = Some ''a'', description = Some ''a'',
      component = None, steps_to_reproduce = Some ''a''\<rparr>"

definition report_b :: report where
  "report_b = \<lparr>key = Some ''B'', url = None, summary = Some ''a'', description = Some ''a'',
      component = Some '''', steps_to_reproduce = Some ''a''\<rparr>"

definition weights_099 :: weights where
  "weights_099 =
     [(''summary'', fl (39 / 100)), (''description'', fl (40 / 100)),
      (''component'', fl (10 / 100)), (''steps'', fl (10 / 100))]"

definition weights_101 :: weights where
  "weights_101 =
     [(''summary'', fl (41 / 100)), (''description'', fl (40 / 100)),
      (''component'', fl (10 / 100)), (''steps'', fl (10 / 100))]"

definition report_c :: report where
  "report_c = \<lparr>key = Some ''C'', url = None, summary = Some ''a'', description = Some ''a b'',
      component = None, steps_to_reproduce = Some ''a''\<rparr>"

definition report_d :: report where
  "report_d = \<lparr>key = Some ''D'', url = None, summary = Some ''b'', description = Some ''a'',
      component = None, steps_to_reproduce = Some ''a''\<rparr>"

definition weights_summary_only :: weights where
  "weights_summary_only =
     [(''summary'', 1), (''description'', 0), (''component'', 0), (''steps'', 0)]"

subsection \<open>Values at the example inputs\<close>

lemma tokenize_a: "tokenize ''a'' = [''a'']"
  by code_simp

lemma tokenize_a_b: "tokenize ''a b'' = [''a'', ''b'']"
  by code_simp

lemma dots_a_a: "dot [''a''] [''a''] [''a''] [''a''] = 1"
  by code_simp

lemma dots_a_ab:
  "dot [''a''] [''a'', ''b''] [''a''] [''a'', ''b''] = 1"
  "dot [''a''] [''a'', ''b''] [''a''] [''a''] = 1"
  "dot [''a''] [''a'', ''b''] [''a'', ''b''] [''a'', ''b''] = 2"
  by code_simp+

lemma dots_ab_ab: "dot [''a'', ''b''] [''a'', ''b''] [''a'', ''b''] [''a'', ''b''] = 2"
  by code_simp

lemma cosine_a_a: "cosine_similarity ''a'' ''a'' = Inr 1"
  by (simp add: similarity_evals tokenize_a dots_a_a float_evals)

lemma cosine_a_ab: "cosine_similarity ''a'' ''a b'' = Inr (1592262918131443 / 2251799813685248)"
  by (simp add: similarity_evals tokenize_a tokenize_a_b dots_a_ab float_evals)

lemma cosine_ab_ab: "cosine_similarity ''a b'' ''a b'' = Inr (1 - 1 / 2 ^ 52)"
  by (simp add: similarity_evals tokenize_a_b dots_ab_ab float_evals)

lemma counts_a_a: "common [''a''] [''a''] = 1" "total [''a''] [''a''] = 1"
  by code_simp+

lemma overlap_a_a: "keyword_overlap ''a'' ''a'' = Inr 1"
  by (simp add: similarity_evals tokenize_a counts_a_a float_evals)

lemma lower_a: "lower ''a'' = ''a''"
  by code_simp

lemma matches_a_a: "matches_of ''a'' ''a'' = 1"
  by code_simp

lemma sequence_a_a: "sequence_similarity ''a'' ''a'' = Inr 1"
  by (simp add: similarity_evals lower_a matches_a_a float_evals)

lemma overall_a_c: "overall_of report_a report_c default_weights = 993992527731863 / 1125899906842624"
  by (simp add: score_evals report_a_def report_c_def cosine_a_a cosine_a_ab overlap_a_a
      sequence_a_a float_evals)

lemma round3_overall_a_c: "round3 (993992527731863 / 1125899906842624) = fl (883 / 1000)"
  by (simp add: float_evals)

lemma below_a_c: "(993992527731863 / 1125899906842624 :: rat) < fl (883 / 1000)"
  by (simp add: float_evals)

lemma tokenize_b: "tokenize ''b'' = [''b'']"
  by code_simp

lemma dots_a_b:
  "dot [''a''] [''b''] [''a''] [''b''] = 0"
  "dot [''a''] [''b''] [''a''] [''a''] = 1"
  "dot [''a''] [''b''] [''b''] [''b''] = 1"
  by code_simp+

lemma cosine_a_b: "cosine_similarity ''a'' ''b'' = Inr 0"
  by (simp add: similarity_evals tokenize_a tokenize_b dots_a_b float_evals)

lemma counts_a_b: "common [''a''] [''b''] = 0" "total [''a''] [''b''] = 2"
  by code_simp+

lemma overlap_a_b: "keyword_overlap ''a'' ''b'' = Inr 0"
  by (simp add: similarity_evals tokenize_a tokenize_b counts_a_b float_evals)

lemma overall_a_d: "overall_of report_a report_d default_weights = 5404319552844595 / 9007199254740992"
  by (simp add: score_evals report_a_def report_d_def cosine_a_a cosine_a_b overlap_a_b
      sequence_a_a float_evals)

lemma overall_a_d_summary_only: "overall_of report_a report_d weights_summary_only = 0"
  by (simp add: score_evals report_a_def report_d_def cosine_a_a cosine_a_b overlap_a_b
      sequence_a_a weights_summary_only_def float_evals)

lemma counts_ab_ab: "common [''a'', ''b''] [''a'', ''b''] = 2" "total [''a'', ''b''] [''a'', ''b''] = 2"
  by code_simp+

lemma overlap_ab_ab: "keyword_overlap ''a b'' ''a b'' = Inr 1"
  by (simp add: similarity_evals tokenize_a_b counts_ab_ab float_evals)

subsection \<open>C1: validation of the weights\<close>

text \<open>C1 claims that weights which do not sum to 1.0 within 1e-6 (0.99, 1.01) make scoring
  raise a ConfigurationError before any comparison, and that no breakdown is produced from
  such weights. The code has no such check: the weights that sum to 0.99 are used as they
  are and a score and a breakdown come back.\<close>

theorem weights_not_validated_counterexample:
  "1 / 10 ^ 6 < \<bar>sum_list (map snd weights_099) - 1\<bar> \<and>
   \<not> isl (calculate_bug_similarity report_a report_b (Some weights_099))"
  by (simp add: calculate_bug_similarity_eq effective_weights_def has_keys_def weights_099_def
      fl_weights)

text \<open>C1 as amended: \<^verbatim>\<open>calculate_bug_similarity\<close> never validates the weights. For every
  non-empty weights dict that has the four keys summary, description, component and steps,
  whatever the weights sum to, it returns the score and the breakdown computed with these
  weights.\<close>

theorem weights_never_validated:
  assumes "has_keys w" and "w \<noteq> []"
  shows "calculate_bug_similarity new_bug existing_bug (Some w) =
           Inr (overall_of new_bug existing_bug w, breakdown_of new_bug existing_bug w)"
  using assms by (simp add: calculate_bug_similarity_eq effective_weights_def)

theorem weights_never_validated_witness:
  "has_keys weights_101 \<and> weights_101 \<noteq> [] \<and>
   calculate_bug_similarity report_a report_b (Some weights_101) =
     Inr (overall_of report_a report_b weights_101, breakdown_of report_a report_b weights_101)"
proof -
  have 1: "has_keys weights_101" by (simp add: has_keys_def weights_101_def)
  have 2: "weights_101 \<noteq> []" by (simp add: weights_101_def)
  from weights_never_validated [OF 1 2, of report_a report_b] 1 2 show ?thesis by simp
qed

subsection \<open>C4: the component match\<close>

text \<open>C4 claims that the component similarity is 1.0 exactly when the two component
  fields are equal strings, an absent field counting as the empty string. The code compares
  \<^verbatim>\<open>new_bug.get('component')\<close> with \<^verbatim>\<open>existing_bug.get('component')\<close>, with no default, so
  an absent component is \<^verbatim>\<open>None\<close> and differs from the empty string: for a report with no
  component and one whose component is the empty string the component similarity is 0.\<close>

theorem component_absent_differs_from_empty:
  "calculate_bug_similarity new_bug existing_bug None =
     Inr (overall_of new_bug existing_bug default_weights,
          breakdown_of new_bug existing_bug default_weights)
   \<and> bd_component (breakdown_of new_bug existing_bug default_weights) =
       (if component new_bug = component existing_bug then 1 else 0)
   \<and> component report_a = None \<and> component report_b = Some []
   \<and> bd_component (breakdown_of report_a report_b default_weights) = 0"
  by (simp add: calculate_bug_similarity_eq effective_weights_def has_keys_default
      breakdown_of_def comp_sim_of_def report_a_def report_b_def round3_zero round3_one)

subsection \<open>C7: raising the threshold\<close>

text \<open>C7: for thresholds \<open>t1 \<le> t2\<close> the matches returned with \<open>t2\<close> are among
  those returned with \<open>t1\<close>, and no more in number: they are the matches of the \<open>t1\<close> result
  whose score reaches \<open>t2\<close>, in the same order.\<close>

theorem find_duplicates_threshold_monotone:
  assumes "t1 \<le> t2"
  shows "\<exists>ms1 ms2. find_duplicates new_bug candidates t1 = Inr ms1 \<and>
           find_duplicates new_bug candidates t2 = Inr ms2 \<and>
           ms2 = filter (\<lambda>m. t2 \<le> similarity m) ms1 \<and>
           set ms2 \<subseteq> set ms1 \<and> length ms2 \<le> length ms1"
proof -
  let ?all = "map (match_of new_bug) candidates"
  let ?ms1 = "sort_reverse similarity (filter (\<lambda>m. t1 \<le> similarity m) ?all)"
  let ?ms2 = "sort_reverse similarity (filter (\<lambda>m. t2 \<le> similarity m) ?all)"
  have "filter (\<lambda>m. t2 \<le> similarity m) (filter (\<lambda>m. t1 \<le> similarity m) ?all)
          = filter (\<lambda>m. t2 \<le> similarity m) ?all"
    using assms by (induction candidates) auto
  then have eq: "?ms2 = filter (\<lambda>m. t2 \<le> similarity m) ?ms1"
    by (simp only: filter_sort_reverse)
  have "set ?ms2 \<subseteq> set ?ms1" by (subst eq) auto
  moreover have "length ?ms2 \<le> length ?ms1" by (subst eq) (rule length_filter_le)
  ultimately show ?thesis using eq by (simp add: find_duplicates_eq)
qed

theorem find_duplicates_threshold_monotone_witness:
  "(1 / 2 :: float) \<le> 3 / 4 \<and>
   (\<exists>ms1 ms2. find_duplicates report_a [report_b, report_a] (1 / 2) = Inr ms1 \<and>
      find_duplicates report_a [report_b, report_a] (3 / 4) = Inr ms2 \<and>
      ms2 = filter (\<lambda>m. 3 / 4 \<le> similarity m) ms1 \<and>
      set ms2 \<subseteq> set ms1 \<and> length ms2 \<le> length ms1)"
proof -
  have h: "(1 / 2 :: float) \<le> 3 / 4" by simp
  from find_duplicates_threshold_monotone [OF h, of report_a "[report_b, report_a]"] h
  show ?thesis by simp
qed

subsection \<open>C8: the order of the matches\<close>

text \<open>C8: \<^verbatim>\<open>find_duplicates\<close> returns the retained matches in descending order of their
  score, and the sort is stable: for every score \<open>s\<close> the returned matches with score \<open>s\<close>
  are the retained matches with score \<open>s\<close> in the order of their candidates in the
  corpus.\<close>

theorem find_duplicates_sorted_stable:
  "\<exists>ms. find_duplicates new_bug candidates threshold = Inr ms \<and>
     sorted (rev (map similarity ms)) \<and>
     (\<forall>s. filter (\<lambda>m. similarity m = s) ms =
          filter (\<lambda>m. similarity m = s)
            (filter (\<lambda>m. threshold \<le> similarity m) (map (match_of new_bug) candidates)))"
  by (simp add: find_duplicates_eq sort_reverse_stable sort_reverse_sorted)

text \<open>An instance: the candidates B and A, in this order in the corpus, both score 0.9
  against the new report and are returned in the order B, A.\<close>

definition report_n :: report where
  "report_n = \<lparr>key = None, url = None, summary = Some ''a b'', description = Some ''a'',
      component = Some ''x'', steps_to_reproduce = Some ''a''\<rparr>"

definition candidate_B :: report where
  "candidate_B = \<lparr>key = Some ''B'', url = None, summary = Some ''a b'', description = Some ''a'',
      component = Some ''y'', steps_to_reproduce = Some ''a''\<rparr>"

definition candidate_A :: report where
  "candidate_A = \<lparr>key = Some ''A'', url = None, summary = Some ''a b'', description = Some ''a'',
      component = Some ''y'', steps_to_reproduce = Some ''a''\<rparr>"

lemma overall_n_B: "overall_of report_n candidate_B default_weights = fl (9 / 10)"
  by (simp add: score_evals report_n_def candidate_B_def cosine_ab_ab cosine_a_a overlap_ab_ab
      sequence_a_a float_evals)

lemma overall_n_A: "overall_of report_n candidate_A default_weights = fl (9 / 10)"
  by (simp add: score_evals report_n_def candidate_A_def cosine_ab_ab cosine_a_a overlap_ab_ab
      sequence_a_a float_evals)

lemma threshold_below: "default_threshold \<le> fl (9 / 10)"
  by (simp add: default_threshold_def float_evals)

lemma equal_scores_keep_corpus_order:
  "find_duplicates report_n [candidate_B, candidate_A] default_threshold =
     Inr [match_of report_n candidate_B, match_of report_n candidate_A]"
  "m_key (match_of report_n candidate_B) = ''B''"
  "m_key (match_of report_n candidate_A) = ''A''"
  "similarity (match_of report_n candidate_B) = similarity (match_of report_n candidate_A)"
proof -
  have s: "similarity (match_of report_n candidate_B) = fl (9 / 10)"
    "similarity (match_of report_n candidate_A) = fl (9 / 10)"
    by (simp_all add: match_of_def make_match_def overall_n_B overall_n_A)
  show "find_duplicates report_n [candidate_B, candidate_A] default_threshold =
     Inr [match_of report_n candidate_B, match_of report_n candidate_A]"
    using threshold_below by (simp add: find_duplicates_eq s sort_reverse_def)
  show "m_key (match_of report_n candidate_B) = ''B''"
    "m_key (match_of report_n candidate_A) = ''A''"
    by (simp_all add: match_of_def make_match_def candidate_B_def candidate_A_def get_def)
  show "similarity (match_of report_n candidate_B) = similarity (match_of report_n candidate_A)"
    by (simp only: s)
qed

subsection \<open>C2: the weights of the duplicate finder\<close>

text \<open>The duplicate finder as the specification describes it: the weights are an input,
  and every candidate is scored with them.\<close>

fun spec_scan ::
  "report \<Rightarrow> weights \<Rightarrow> float \<Rightarrow> report list \<Rightarrow> match list \<Rightarrow> error + match list" where
  "spec_scan new_bug w threshold [] matches = Inr matches"
| "spec_scan new_bug w threshold (candidate # candidates) matches =
     (case calculate_bug_similarity new_bug candidate (Some w) of
        Inl e \<Rightarrow> Inl e
      | Inr (score, bd) \<Rightarrow>
          spec_scan new_bug w threshold candidates
            (if threshold \<le> score then matches @ [make_match candidate score bd] else matches))"

definition spec_findDuplicates ::
  "report \<Rightarrow> report list \<Rightarrow> weights \<Rightarrow> float \<Rightarrow> error + match list" where
  "spec_findDuplicates new_bug corpus w threshold =
     (case spec_scan new_bug w threshold corpus [] of
        Inl e \<Rightarrow> Inl e
      | Inr matches \<Rightarrow> Inr (sort_reverse similarity matches))"

lemma spec_scan_default: "spec_scan new_bug default_weights threshold candidates matches
    = scan new_bug threshold candidates matches"
proof (induction candidates arbitrary: matches)
  case Nil
  show ?case by simp
next
  case (Cons c cs)
  have "calculate_bug_similarity new_bug c (Some default_weights)
          = calculate_bug_similarity new_bug c None"
    by (simp add: calculate_bug_similarity_eq effective_weights_def)
  then show ?case by (auto simp: Cons.IH split: sum.splits)
qed

text \<open>C2 claims that \<^verbatim>\<open>find_duplicates\<close> takes the weights as an input and scores every
  candidate with them. The function has no such parameter: it calls
  \<^verbatim>\<open>calculate_bug_similarity(new_bug, candidate)\<close>, which falls back to the default weights.
  With weights that put everything on the summary, the specified finder returns nothing for
  a candidate that differs from the new report in its summary only, while the code returns
  it with score 0.6.\<close>

theorem find_duplicates_ignores_weights_counterexample:
  "find_duplicates report_a [report_d] (1 / 2)
     \<noteq> spec_findDuplicates report_a [report_d] weights_summary_only (1 / 2)"
proof -
  have "has_keys weights_summary_only" "weights_summary_only \<noteq> []"
    by (simp_all add: has_keys_def weights_summary_only_def)
  then have "spec_findDuplicates report_a [report_d] weights_summary_only (1 / 2) = Inr []"
    by (simp add: spec_findDuplicates_def calculate_bug_similarity_eq effective_weights_def
        overall_a_d_summary_only sort_reverse_def)
  moreover have "find_duplicates report_a [report_d] (1 / 2) = Inr [match_of report_a report_d]"
    by (simp add: find_duplicates_eq match_of_def make_match_def overall_a_d sort_reverse_def)
  ultimately show ?thesis by simp
qed

text \<open>C2 as amended: \<^verbatim>\<open>find_duplicates\<close> takes no weights; for every new report, corpus
  and threshold it returns what the specified finder returns with the default weights
  (summary 0.40, description 0.40, component 0.10, steps 0.10).\<close>

theorem find_duplicates_uses_default_weights:
  "find_duplicates new_bug candidates threshold
     = spec_findDuplicates new_bug candidates default_weights threshold"
  by (simp add: find_duplicates_def spec_findDuplicates_def spec_scan_default)

subsection \<open>C10: filtering and sorting by the unrounded score\<close>

text \<open>A new report and two candidates whose scores differ in the last place, 0.8999999999999999
  for P and 0.9 for Q, and are the same after rounding to three places.\<close>

definition report_m :: report where
  "report_m = \<lparr>key = None, url = None, summary = Some ''a'', description = Some ''a b'',
      component = Some ''x'', steps_to_reproduce = Some ''a''\<rparr>"

definition candidate_P :: report where
  "candidate_P = \<lparr>key = Some ''P'', url = None, summary = Some ''a'', description = Some ''a b'',
      component = Some ''y'', steps_to_reproduce = Some ''a''\<rparr>"

definition candidate_Q :: report where
  "candidate_Q = \<lparr>key = Some ''Q'', url = None, summary = Some ''a'',
      description = Some ''a b a b a b'', component = Some ''y'', steps_to_reproduce = Some ''a''\<rparr>"

lemma tokenize_ab3: "tokenize ''a b a b a b'' = [''a'', ''b'', ''a'', ''b'', ''a'', ''b'']"
  by code_simp

lemma dots_ab_ab3:
  "dot [''a'', ''b''] [''a'', ''b'', ''a'', ''b'', ''a'', ''b''] [''a'', ''b'']
     [''a'', ''b'', ''a'', ''b'', ''a'', ''b''] = 6"
  "dot [''a'', ''b''] [''a'', ''b'', ''a'', ''b'', ''a'', ''b''] [''a'', ''b''] [''a'', ''b''] = 2"
  "dot [''a'', ''b''] [''a'', ''b'', ''a'', ''b'', ''a'', ''b'']
     [''a'', ''b'', ''a'', ''b'', ''a'', ''b''] [''a'', ''b'', ''a'', ''b'', ''a'', ''b''] = 18"
  by code_simp+

lemma cosine_ab_ab3: "cosine_similarity ''a b'' ''a b a b a b'' = Inr 1"
  by (simp add: similarity_evals tokenize_a_b tokenize_ab3 dots_ab_ab3 float_evals
      expo_range [where k = 4])

lemma overall_m_P:
  "overall_of report_m candidate_P default_weights = 2026619832316723 / 2251799813685248"
  by (simp add: score_evals report_m_def candidate_P_def cosine_a_a cosine_ab_ab overlap_a_a
      sequence_a_a float_evals)

lemma overall_m_Q: "overall_of report_m candidate_Q default_weights = fl (9 / 10)"
  by (simp add: score_evals report_m_def candidate_Q_def cosine_a_a cosine_ab_ab3 overlap_a_a
      sequence_a_a float_evals)

lemma round3_overall_m_P: "round3 (2026619832316723 / 2251799813685248) = fl (9 / 10)"
  by (simp add: float_evals)

lemma round3_overall_m_Q: "round3 (fl (9 / 10)) = fl (9 / 10)"
  by (simp add: float_evals)

lemma scores_m:
  "default_threshold \<le> (2026619832316723 / 2251799813685248 :: rat)"
  "default_threshold \<le> fl (9 / 10)"
  "(2026619832316723 / 2251799813685248 :: rat) < fl (9 / 10)"
  by (simp_all add: default_threshold_def float_evals)


lemma calculate_bug_similarity_default:
  "calculate_bug_similarity new_bug c None =
     Inr (overall_of new_bug c default_weights, breakdown_of new_bug c default_weights)"
  by (simp add: calculate_bug_similarity_eq effective_weights_def has_keys_default)

lemma retained_iff:
  "(\<exists>score bd. calculate_bug_similarity new_bug c None = Inr (score, bd) \<and> threshold \<le> score)
     = (threshold \<le> similarity (match_of new_bug c))"
  by (simp add: calculate_bug_similarity_default match_of_def make_match_def)

text \<open>C10: \<^verbatim>\<open>find_duplicates\<close> filters and sorts by the unrounded score of
  \<^verbatim>\<open>calculate_bug_similarity\<close>. For every new report, corpus and threshold, the returned
  matches are in descending order of their similarity; a match is returned exactly for the
  candidates whose unrounded score reaches the threshold, once for each such candidate; it
  stores this score as its similarity, and the overall value of its breakdown is the score
  rounded to three places. A candidate whose score is below the threshold is left out even
  when the rounded score reaches it: \<open>report_c\<close> scores 0.8828... against \<open>report_a\<close>,
  which rounds to 0.883, and is not returned for the threshold 0.883. Matches with the same
  rounded overall value are ordered by their unrounded scores: P before Q in the corpus, with
  the scores 0.8999999999999999 and 0.9 that both round to 0.9, are returned as Q, P.\<close>

theorem find_duplicates_unrounded_score:
  "(\<exists>ms. find_duplicates new_bug candidates threshold = Inr ms
      \<and> sorted (rev (map similarity ms))
      \<and> (\<forall>m. m \<in> set ms \<longleftrightarrow>
            (\<exists>c score bd. c \<in> set candidates
               \<and> calculate_bug_similarity new_bug c None = Inr (score, bd)
               \<and> threshold \<le> score \<and> m = make_match c score bd))
      \<and> length ms =
          length (filter (\<lambda>c. \<exists>score bd. calculate_bug_similarity new_bug c None = Inr (score, bd)
                                 \<and> threshold \<le> score) candidates)
      \<and> map (\<lambda>m. bd_overall (m_breakdown m)) ms = map (\<lambda>m. round3 (similarity m)) ms)
   \<and> (\<exists>score bd. calculate_bug_similarity report_a report_c None = Inr (score, bd)
         \<and> score < fl (883 / 1000) \<and> fl (883 / 1000) \<le> bd_overall bd)
   \<and> find_duplicates report_a [report_c] (fl (883 / 1000)) = Inr []
   \<and> (\<exists>ms. find_duplicates report_m [candidate_P, candidate_Q] default_threshold = Inr ms
         \<and> map m_key ms = [''Q'', ''P'']
         \<and> map similarity ms = [fl (9 / 10), 2026619832316723 / 2251799813685248]
         \<and> map (\<lambda>m. bd_overall (m_breakdown m)) ms = [fl (9 / 10), fl (9 / 10)])"
proof -
  let ?kept = "filter (\<lambda>m. threshold \<le> similarity m) (map (match_of new_bug) candidates)"
  let ?ms = "sort_reverse similarity ?kept"
  have 1: "find_duplicates new_bug candidates threshold = Inr ?ms"
    by (rule find_duplicates_eq)
  have 2: "sorted (rev (map similarity ?ms))"
    by (rule sort_reverse_sorted)
  have 3: "m \<in> set ?ms \<longleftrightarrow>
            (\<exists>c score bd. c \<in> set candidates
               \<and> calculate_bug_similarity new_bug c None = Inr (score, bd)
               \<and> threshold \<le> score \<and> m = make_match c score bd)" for m
    by (auto simp: calculate_bug_similarity_default match_of_def make_match_def)
  have 4: "length ?ms =
          length (filter (\<lambda>c. \<exists>score bd. calculate_bug_similarity new_bug c None = Inr (score, bd)
                                 \<and> threshold \<le> score) candidates)"
  proof -
    have "(\<lambda>c. \<exists>score bd. calculate_bug_similarity new_bug c None = Inr (score, bd)
                \<and> threshold \<le> score) = (\<lambda>c. threshold \<le> similarity (match_of new_bug c))"
      by (rule ext) (rule retained_iff)
    then show ?thesis by (simp only: length_sort_reverse filter_map length_map comp_def)
  qed
  have "bd_overall (m_breakdown m) = round3 (similarity m)" if "m \<in> set ?ms" for m
    using that by (auto simp: match_of_def make_match_def breakdown_of_def)
  then have 5: "map (\<lambda>m. bd_overall (m_breakdown m)) ?ms = map (\<lambda>m. round3 (similarity m)) ?ms"
    by (simp only: map_eq_conv) blast
  have 6: "\<exists>score bd. calculate_bug_similarity report_a report_c None = Inr (score, bd)
         \<and> score < fl (883 / 1000) \<and> fl (883 / 1000) \<le> bd_overall bd"
  proof -
    have "calculate_bug_similarity report_a report_c None =
            Inr (993992527731863 / 1125899906842624,
                 breakdown_of report_a report_c default_weights)"
      by (simp only: calculate_bug_similarity_default overall_a_c)
    moreover have "fl (883 / 1000) \<le> bd_overall (breakdown_of report_a report_c default_weights)"
      by (simp add: breakdown_of_def overall_a_c round3_overall_a_c)
    ultimately show ?thesis using below_a_c by blast
  qed
  have 7: "find_duplicates report_a [report_c] (fl (883 / 1000)) = Inr []"
    using below_a_c
    by (simp add: find_duplicates_eq sort_reverse_def match_of_def make_match_def overall_a_c)
  have 8: "\<exists>ms. find_duplicates report_m [candidate_P, candidate_Q] default_threshold = Inr ms
         \<and> map m_key ms = [''Q'', ''P'']
         \<and> map similarity ms = [fl (9 / 10), 2026619832316723 / 2251799813685248]
         \<and> map (\<lambda>m. bd_overall (m_breakdown m)) ms = [fl (9 / 10), fl (9 / 10)]"
  proof -
    have s: "similarity (match_of report_m candidate_P) = 2026619832316723 / 2251799813685248"
      "similarity (match_of report_m candidate_Q) = fl (9 / 10)"
      by (simp_all add: match_of_def make_match_def overall_m_P overall_m_Q)
    have k: "m_key (match_of report_m candidate_P) = ''P''"
      "m_key (match_of report_m candidate_Q) = ''Q''"
      by (simp_all add: match_of_def make_match_def candidate_P_def candidate_Q_def get_def)
    have b: "bd_overall (m_breakdown (match_of report_m candidate_P)) = fl (9 / 10)"
      "bd_overall (m_breakdown (match_of report_m candidate_Q)) = fl (9 / 10)"
      by (simp_all add: match_of_def make_match_def breakdown_of_def overall_m_P overall_m_Q
          round3_overall_m_P round3_overall_m_Q)
    have "sort_reverse similarity [match_of report_m candidate_P, match_of report_m candidate_Q]
            = [match_of report_m candidate_Q, match_of report_m candidate_P]"
      using scores_m(3) by (simp add: sort_reverse_def s)
    then have "find_duplicates report_m [candidate_P, candidate_Q] default_threshold =
            Inr [match_of report_m candidate_Q, match_of report_m candidate_P]"
      using scores_m(1,2) by (simp add: find_duplicates_eq s)
    then show ?thesis by (simp add: s k b)
  qed
  from 1 2 3 4 5 have "\<exists>ms. find_duplicates new_bug candidates threshold = Inr ms
      \<and> sorted (rev (map similarity ms))
      \<and> (\<forall>m. m \<in> set ms \<longleftrightarrow>
            (\<exists>c score bd. c \<in> set candidates
               \<and> calculate_bug_similarity new_bug c None = Inr (score, bd)
               \<and> threshold \<le> score \<and> m = make_match c score bd))
      \<and> length ms =
          length (filter (\<lambda>c. \<exists>score bd. calculate_bug_similarity new_bug c None = Inr (score, bd)
                                 \<and> threshold \<le> score) candidates)
      \<and> map (\<lambda>m. bd_overall (m_breakdown m)) ms = map (\<lambda>m. round3 (similarity m)) ms"
    by blast
  with 6 7 8 show ?thesis by blast
qed

subsection \<open>C3: the tokenizer\<close>

text \<open>C3 claims that the tokens are the lower-cased maximal runs of ASCII letters and digits,
  so that \<^verbatim>\<open>foo_bar\<close> yields \<^verbatim>\<open>foo\<close> and \<^verbatim>\<open>bar\<close>. The pattern
  \<^verbatim>\<open>\b[a-zA-Z0-9]+\b\<close> asks for a word boundary on both sides and the underscore is a word
  character, so \<^verbatim>\<open>foo_bar\<close> yields no token at all.\<close>

theorem tokenize_counterexample: "tokenize ''foo_bar'' \<noteq> spec_tokenize ''foo_bar''"
  by code_simp

text \<open>C3 as amended: for every text the tokenizer returns, in order and with repetitions,
  the maximal runs of word characters (letters, digits and the underscore) of the lower-cased
  text that consist of ASCII letters and digits only; a run that contains an underscore or a
  non-ASCII letter or digit yields no token. A text of spaces only, and the empty text,
  yield no token.\<close>

theorem tokenize_word_runs:
  "tokenize text = filter (list_all in_class) (runs is_word (lower text))
   \<and> tokenize (replicate n (CHR '' '')) = []"
proof -
  have 1: "tokenize t = filter (list_all in_class) (runs is_word (lower t))" for t
    by (simp add: tokenize_def findall_runs word_at_def)
  have "\<not> is_word (CHR '' '')" by (simp add: is_word_def in_class_def code_point_def)
  then have "runs is_word (replicate n (CHR '' '')) = []"
    by (intro runs_no_word) simp
  then show ?thesis by (simp add: 1 lower_replicate_space)
qed

subsection \<open>C6: the sequence similarity of identical and of empty strings\<close>

text \<open>C6: the sequence similarity of a non-empty string with itself is 1.0, that of two
  empty strings is 1.0, and that of a non-empty string and the empty string, in either order,
  is 0.0.\<close>

theorem sequence_similarity_identical_or_empty:
  assumes "text \<noteq> []"
  shows "sequence_similarity text text = Inr 1 \<and> sequence_similarity [] [] = Inr 1 \<and>
         sequence_similarity text [] = Inr 0 \<and> sequence_similarity [] text = Inr 0"
proof -
  have "lower text \<noteq> []" using assms by (simp add: lower_def)
  then show ?thesis
    by (simp add: sequence_similarity_def ratio_self ratio_empty_right ratio_empty_left
        ratio_empty lower_def)
qed

theorem sequence_similarity_identical_or_empty_witness:
  "''Open the page'' \<noteq> [] \<and>
   sequence_similarity ''Open the page'' ''Open the page'' = Inr 1 \<and>
   sequence_similarity [] [] = Inr 1 \<and>
   sequence_similarity ''Open the page'' [] = Inr 0 \<and>
   sequence_similarity [] ''Open the page'' = Inr 0"
  using sequence_similarity_identical_or_empty [of "''Open the page''"] by simp

subsection \<open>C5: the cosine similarity of a text with itself\<close>

text \<open>C5 claims that the cosine similarity of every non-empty text with itself is 1.0. A
  non-empty text with no token, such as a question mark, has similarity 0.0 with itself,
  since the function returns 0.0 when either token list is empty; and for \<^verbatim>\<open>a b\<close> the
  rounded square roots give 2 / (sqrt 2 * sqrt 2) = 0.9999999999999998.\<close>

lemma tokenize_question_mark: "tokenize ''?'' = []"
  by code_simp

theorem cosine_similarity_self_counterexample:
  "cosine_similarity ''?'' ''?'' = Inr 0 \<and> cosine_similarity ''a b'' ''a b'' = Inr (1 - 1 / 2 ^ 52)"
  by (simp add: cosine_similarity_no_tokens tokenize_question_mark cosine_ab_ab)

text \<open>C5 as amended: the cosine similarity of the empty text and any text is 0.0, and so is
  that of a text without tokens and itself; for a text with at least one token the cosine
  similarity with itself is 1.0 up to floating-point rounding: it differs from 1 by at most
  \<open>2 ^ - 47\<close>.\<close>

theorem cosine_similarity_self_and_empty:
  assumes "tokenize t = []" "tokenize u \<noteq> []"
  shows "cosine_similarity [] x = Inr 0 \<and> cosine_similarity x [] = Inr 0 \<and>
         cosine_similarity t t = Inr 0 \<and>
         (\<exists>c. cosine_similarity u u = Inr c \<and> \<bar>c - 1\<bar> \<le> 1 / 2 ^ 47)"
  using assms cosine_similarity_self [of u] by (simp add: cosine_similarity_no_tokens)

theorem cosine_similarity_self_and_empty_witness:
  "tokenize ''?'' = [] \<and> tokenize ''a b'' \<noteq> [] \<and>
   cosine_similarity [] ''a'' = Inr 0 \<and> cosine_similarity ''a'' [] = Inr 0 \<and>
   cosine_similarity ''?'' ''?'' = Inr 0 \<and>
   (\<exists>c. cosine_similarity ''a b'' ''a b'' = Inr c \<and> \<bar>c - 1\<bar> \<le> 1 / 2 ^ 47)"
proof -
  have 1: "tokenize ''?'' = []" by (rule tokenize_question_mark)
  have 2: "tokenize ''a b'' \<noteq> []" by (simp add: tokenize_a_b)
  from cosine_similarity_self_and_empty [OF 1 2, of "''a''"] 1 2 show ?thesis by simp
qed

subsection \<open>C9: identical texts, different components\<close>











definition report_x :: report where
  "report_x = \<lparr>key = None, url = None, summary = Some ''a b'', description = Some ''a b'',
      component = Some ''x'', steps_to_reproduce = Some ''a''\<rparr>"

definition report_y :: report where
  "report_y = \<lparr>key = Some ''Y'', url = None, summary = Some ''a b'', description = Some ''a b'',
      component = Some ''y'', steps_to_reproduce = Some ''a''\<rparr>"


text \<open>The unrounded score of these two reports is 0.8999999999999998, one rounding step
  away from 0.9: it is the rounded overall value of the breakdown that is 0.9.\<close>

lemma overall_x_y:
  "overall_of report_x report_y default_weights = 8106479329266891 / 9007199254740992"
  by (simp add: score_evals report_x_def report_y_def cosine_ab_ab overlap_ab_ab sequence_a_a
      float_evals)

end
